theory Spec2Isabelle
  imports Complex_Main "HOL-Library.Sublist"
begin

section \<open>The UCT search tree of mcts-cpp (TreeNode.h)\<close>

text \<open>
  The development embeds the class template \<^verbatim>\<open>mcts::UCTreeNode<N_ACTIONS, URand>\<close>.

  Numbers. A C++ \<^verbatim>\<open>double\<close> is read as a real number and an \<^verbatim>\<open>int\<close> as an integer:
  rounding, overflow, infinities and NaN are outside the model, with one exception. The
  division in \<^verbatim>\<open>vValue\<close> has a divisor that is zero on a node that was never visited,
  so its result is given by \<open>double_div\<close>, which writes out the IEEE-754 outcome for a
  zero divisor.

  Memory. A child pointer is a \<open>slot\<close>: null, a pointer to an owned child, or an
  indeterminate value (memory that was never written). The tree is strict (no sharing), so a
  node is a value that holds its children, and a pointer into the tree held by
  \<^verbatim>\<open>iterate\<close> is the list of action indices leading from the root to the node.

  Effects. The template parameter \<^verbatim>\<open>URand\<close>, the reward generator passed to
  \<^verbatim>\<open>iterate\<close> and the C library's \<^verbatim>\<open>rand()\<close> are stateful. Each is a function
  that takes its own state and the ambient state of the process (type \<open>'w\<close>, which holds
  the hidden state of \<^verbatim>\<open>rand()\<close>) and returns the updated states with its result.
  They are collected in the record \<open>env\<close>, together with \<^verbatim>\<open>N_ACTIONS\<close>. An exception
  thrown by the reward generator is not modelled: the generator returns.

  Assertions are enabled (the build type is Debug): a failed \<^verbatim>\<open>assert\<close> and a
  dereference of a null or indeterminate pointer end the call with a \<open>fault\<close>.
\<close>

subsection \<open>Constants\<close>

definition EPSILON :: real where
  "EPSILON = 1 / 1000000"

definition MAX_ROLLOUT_ITERATIONS :: nat where
  "MAX_ROLLOUT_ITERATIONS = 50"

definition DEFAULT_GAMMA :: real where
  "DEFAULT_GAMMA = 9 / 10"

text \<open>\<^verbatim>\<open>std::numeric_limits<double>::max()\<close>, the largest finite double.\<close>

definition DBL_MAX :: real where
  "DBL_MAX = (2 ^ 53 - 1) * 2 ^ 971"

subsection \<open>Data\<close>

datatype fault = AssertionFailed | NullDereference | WildDereference

datatype 'a slot = Null | Indeterminate | Ptr 'a

datatype 'r UCTreeNode = UCTreeNode
  (vpChildren_i: "'r UCTreeNode slot list")
  (isLeaf_i: bool)
  (nVisits_i: real)
  (totValue_i: real)
  (gamma_i: real)
  (rand_i: 'r)

record ('r, 'm, 'w) env =
  N_ACTIONS :: nat
  URand_new :: 'r
  URand_call :: "'r \<Rightarrow> 'w \<Rightarrow> real \<times> 'r \<times> 'w"
  mdp_call :: "'m \<Rightarrow> int \<Rightarrow> 'w \<Rightarrow> real \<times> 'm \<times> 'w"
  c_rand :: "'w \<Rightarrow> nat \<times> 'w"
  RAND_MAX :: nat

text \<open>Assignments to single members.\<close>

definition set_children :: "'r UCTreeNode slot list \<Rightarrow> 'r UCTreeNode \<Rightarrow> 'r UCTreeNode" where
  "set_children cs n = UCTreeNode cs (isLeaf_i n) (nVisits_i n) (totValue_i n) (gamma_i n) (rand_i n)"

definition set_isLeaf :: "bool \<Rightarrow> 'r UCTreeNode \<Rightarrow> 'r UCTreeNode" where
  "set_isLeaf b n = UCTreeNode (vpChildren_i n) b (nVisits_i n) (totValue_i n) (gamma_i n) (rand_i n)"

definition set_rand :: "'r \<Rightarrow> 'r UCTreeNode \<Rightarrow> 'r UCTreeNode" where
  "set_rand r n = UCTreeNode (vpChildren_i n) (isLeaf_i n) (nVisits_i n) (totValue_i n) (gamma_i n) r"

text \<open>
  Reading \<^verbatim>\<open>vpChildren_i[k]\<close>. The array has \<^verbatim>\<open>N_ACTIONS\<close> elements; a read past its
  end yields an indeterminate value.
\<close>

definition fetch :: "'a slot list \<Rightarrow> nat \<Rightarrow> 'a slot" where
  "fetch v k = (if k < length v then v ! k else Indeterminate)"

text \<open>
  The loop \<^verbatim>\<open>for (k = 0; k < N; ++k) v[k] = x\<close> of the constructor and of
  \<^verbatim>\<open>expand\<close>.
\<close>

function assign_all :: "nat \<Rightarrow> nat \<Rightarrow> 'a slot \<Rightarrow> 'a slot list \<Rightarrow> 'a slot list" where
  "assign_all k N x v = (if k < N then assign_all (Suc k) N x (v[k := x]) else v)"
  by pat_completeness auto
termination
  by (relation "measure (\<lambda>(k, N, x, v). N - k)") auto

declare assign_all.simps [simp del]

subsection \<open>Construction and copying\<close>

text \<open>
  The constructor \<^verbatim>\<open>UCTreeNode(inGamma, inRand)\<close>: the array starts as unwritten memory
  and the loop in the body nulls every element.
\<close>

definition UCTreeNode_ctor :: "('r, 'm, 'w) env \<Rightarrow> real \<Rightarrow> 'r \<Rightarrow> 'r UCTreeNode" where
  "UCTreeNode_ctor P inGamma inRand =
     UCTreeNode (assign_all 0 (N_ACTIONS P) Null (replicate (N_ACTIONS P) Indeterminate))
       True 0 0 inGamma inRand"

text \<open>\<^verbatim>\<open>new UCTreeNode()\<close>: both constructor arguments take their defaults.\<close>

definition UCTreeNode_default :: "('r, 'm, 'w) env \<Rightarrow> 'r UCTreeNode" where
  "UCTreeNode_default P = UCTreeNode_ctor P DEFAULT_GAMMA (URand_new P)"

text \<open>
  The copy constructor. The scalar members are copied by the initialiser list; for a leaf the
  body returns at once, so the array of the new object is never written.
\<close>

function UCTreeNode_copy :: "('r, 'm, 'w) env \<Rightarrow> 'r UCTreeNode \<Rightarrow> fault + 'r UCTreeNode"
  and copy_children :: "('r, 'm, 'w) env \<Rightarrow> 'r UCTreeNode slot list \<Rightarrow> fault + 'r UCTreeNode slot list"
where
  "UCTreeNode_copy P (UCTreeNode cs leaf nv tv g r) =
     (if leaf then Inr (UCTreeNode (replicate (N_ACTIONS P) Indeterminate) leaf nv tv g r)
      else (case copy_children P cs of
              Inl e \<Rightarrow> Inl e
            | Inr cs' \<Rightarrow> Inr (UCTreeNode cs' leaf nv tv g r)))"
| "copy_children P [] = Inr []"
| "copy_children P (s # ss) =
     (case s of
        Null \<Rightarrow> Inl AssertionFailed
      | Indeterminate \<Rightarrow> Inl WildDereference
      | Ptr c \<Rightarrow>
          (case UCTreeNode_copy P c of
             Inl e \<Rightarrow> Inl e
           | Inr c' \<Rightarrow>
               (case copy_children P ss of
                  Inl e \<Rightarrow> Inl e
                | Inr ss' \<Rightarrow> Inr (Ptr c' # ss'))))"
  by pat_completeness auto
termination
  by (relation "measure (\<lambda>x. case x of
         Inl (P, n) \<Rightarrow> 2 * size n
       | Inr (P, ss) \<Rightarrow> 2 * size_list (size_slot size) ss + 1)") auto


subsection \<open>Selection, expansion, rollout and statistics\<close>

text \<open>
  \<^verbatim>\<open>selectAction\<close>. The loop body reads child \<open>k\<close>, computes its UCT value, adds
  \<^verbatim>\<open>rand_i()*EPSILON\<close> and compares with \<^verbatim>\<open>>=\<close>. The call of \<^verbatim>\<open>rand_i\<close> updates
  the member \<^verbatim>\<open>rand_i\<close> of this node, so the node is returned with the result.
\<close>

function selectAction_loop ::
  "('r, 'm, 'w) env \<Rightarrow> 'r UCTreeNode \<Rightarrow> nat \<Rightarrow> nat \<Rightarrow> real \<Rightarrow> 'w \<Rightarrow> fault + (nat \<times> 'r UCTreeNode \<times> 'w)"
where
  "selectAction_loop P this k selected bestValue w =
     (if k < N_ACTIONS P then
        (case fetch (vpChildren_i this) k of
           Null \<Rightarrow> Inl AssertionFailed
         | Indeterminate \<Rightarrow> Inl WildDereference
         | Ptr pCur \<Rightarrow>
             (case URand_call P (rand_i this) w of
                (u, r', w') \<Rightarrow>
                  (let uctValue = totValue_i pCur / (nVisits_i pCur + EPSILON)
                         + sqrt (ln (nVisits_i this + 1) / (nVisits_i pCur + EPSILON))
                         + u * EPSILON
                   in if uctValue \<ge> bestValue
                      then selectAction_loop P (set_rand r' this) (Suc k) k uctValue w'
                      else selectAction_loop P (set_rand r' this) (Suc k) selected bestValue w')))
      else Inr (selected, this, w))"
  by pat_completeness auto
termination
  by (relation "measure (\<lambda>(P, this, k, selected, bestValue, w). N_ACTIONS P - k)") auto

declare selectAction_loop.simps [simp del]

definition selectAction ::
  "('r, 'm, 'w) env \<Rightarrow> 'r UCTreeNode \<Rightarrow> 'w \<Rightarrow> fault + (nat \<times> 'r UCTreeNode \<times> 'w)"
where
  "selectAction P this w =
     (if isLeaf_i this then Inl AssertionFailed
      else selectAction_loop P this 0 0 (- DBL_MAX) w)"

definition expand :: "('r, 'm, 'w) env \<Rightarrow> 'r UCTreeNode \<Rightarrow> 'r UCTreeNode" where
  "expand P this =
     (if \<not> isLeaf_i this then this
      else set_children
             (assign_all 0 (N_ACTIONS P) (Ptr (UCTreeNode_default P)) (vpChildren_i this))
             (set_isLeaf False this))"

text \<open>The conversion of a double to \<^verbatim>\<open>int\<close> drops the fractional part.\<close>

definition to_int :: "real \<Rightarrow> int" where
  "to_int x = (if 0 \<le> x then \<lfloor>x\<rfloor> else \<lceil>x\<rceil>)"

text \<open>
  \<^verbatim>\<open>rollOut\<close>. The generator \<^verbatim>\<open>mdp\<close> is a by-value parameter: the calls change the
  local copy, which is dropped at the end.
\<close>

function rollOut_loop ::
  "('r, 'm, 'w) env \<Rightarrow> 'r UCTreeNode \<Rightarrow> 'm \<Rightarrow> nat \<Rightarrow> real \<Rightarrow> real \<Rightarrow> 'w \<Rightarrow> real \<times> 'r UCTreeNode \<times> 'w"
where
  "rollOut_loop P this mdp k discount totReward w =
     (if k < MAX_ROLLOUT_ITERATIONS then
        (case URand_call P (rand_i this) w of
           (u, r', w1) \<Rightarrow>
             (let action = to_int (u * real (N_ACTIONS P)) in
              case mdp_call P mdp action w1 of
                (reward, mdp', w2) \<Rightarrow>
                  rollOut_loop P (set_rand r' this) mdp' (Suc k)
                    (discount * gamma_i this) (totReward + discount * reward) w2))
      else (totReward, this, w))"
  by pat_completeness auto
termination
  by (relation "measure (\<lambda>(P, this, mdp, k, discount, totReward, w). MAX_ROLLOUT_ITERATIONS - k)") auto

declare rollOut_loop.simps [simp del]

definition rollOut :: "('r, 'm, 'w) env \<Rightarrow> 'r UCTreeNode \<Rightarrow> 'm \<Rightarrow> 'w \<Rightarrow> real \<times> 'r UCTreeNode \<times> 'w" where
  "rollOut P this mdp w = rollOut_loop P this mdp 0 1 0 w"

definition updateStats :: "real \<Rightarrow> 'r UCTreeNode \<Rightarrow> 'r UCTreeNode" where
  "updateStats v n =
     UCTreeNode (vpChildren_i n) (isLeaf_i n) (nVisits_i n + 1) (totValue_i n + v) (gamma_i n) (rand_i n)"

subsection \<open>Pointers into the tree\<close>

text \<open>
  A pointer to a node of the tree is the list of action indices from the root. \<open>deref\<close>
  follows it (\<open>None\<close> when it passes a slot that holds no child), \<open>update_at\<close> applies a
  change to the node it points to.
\<close>

fun deref :: "'r UCTreeNode \<Rightarrow> nat list \<Rightarrow> 'r UCTreeNode option" where
  "deref n [] = Some n"
| "deref n (a # p) = (case fetch (vpChildren_i n) a of Ptr c \<Rightarrow> deref c p | _ \<Rightarrow> None)"

fun update_at :: "'r UCTreeNode \<Rightarrow> nat list \<Rightarrow> ('r UCTreeNode \<Rightarrow> 'r UCTreeNode) \<Rightarrow> 'r UCTreeNode" where
  "update_at n [] f = f n"
| "update_at n (a # p) f =
     (case fetch (vpChildren_i n) a of
        Ptr c \<Rightarrow> set_children ((vpChildren_i n)[a := Ptr (update_at c p f)]) n
      | _ \<Rightarrow> n)"

subsection \<open>One iteration\<close>

text \<open>Facts for the termination of the descent: every step moves to a strictly smaller subtree.\<close>

lemma selectAction_loop_same:
  "selectAction_loop P this k selected bestValue w = Inr (sel, this', w') \<Longrightarrow>
   this' = set_rand (rand_i this') this"
proof (induction P this k selected bestValue w rule: selectAction_loop.induct)
  case (1 P this k selected bestValue w)
  show ?case
  proof (cases "k < N_ACTIONS P")
    case False
    with "1.prems" have "this' = this"
      by (subst (asm) selectAction_loop.simps) simp
    then show ?thesis by (cases this) (simp add: set_rand_def)
  next
    case True
    show ?thesis using "1.prems" True "1.IH"
      apply (subst (asm) selectAction_loop.simps)
      apply (auto split: slot.splits prod.splits if_splits simp: Let_def set_rand_def)
      done
  qed
qed

lemma fetch_size: "fetch cs a = Ptr c \<Longrightarrow> size c < Suc (size_list (size_slot size) cs)"
proof (induction cs arbitrary: a)
  case Nil then show ?case by (simp add: fetch_def)
next
  case (Cons s cs)
  show ?case
  proof (cases a)
    case 0 with Cons.prems show ?thesis by (simp add: fetch_def)
  next
    case (Suc b)
    with Cons.prems have "fetch cs b = Ptr c" by (simp add: fetch_def split: if_splits)
    from Cons.IH [OF this] show ?thesis by simp
  qed
qed

lemma deref_update_at:
  "deref tr p = Some cur \<Longrightarrow> deref (update_at tr p f) (p @ q) = deref (f cur) q"
proof (induction p arbitrary: tr)
  case Nil then show ?case by simp
next
  case (Cons a p)
  then show ?case
    by (cases tr) (auto simp: fetch_def set_children_def split: slot.splits if_splits)
qed


lemma descend_decreases:
  assumes "deref this pCur = Some cur" and "selectAction P cur w = Inr (action, cur', w1)"
  shows "(case deref (update_at this pCur (\<lambda>_. cur')) (pCur @ [action]) of
            None \<Rightarrow> 0 | Some n \<Rightarrow> size n) < size cur"
proof -
  from assms(2) have same: "cur' = set_rand (rand_i cur') cur"
    by (auto simp: selectAction_def split: if_splits dest: selectAction_loop_same)
  have d: "deref (update_at this pCur (\<lambda>_. cur')) (pCur @ [action]) = deref cur' [action]"
    using assms(1) by (rule deref_update_at)
  have cs: "vpChildren_i cur' = vpChildren_i cur"
    by (subst same) (simp add: set_rand_def)
  have pos: "0 < size cur" by (cases cur) simp
  show ?thesis
  proof (cases "fetch (vpChildren_i cur) action")
    case (Ptr c)
    from fetch_size [OF this] have "size c < size cur" by (cases cur) simp
    with Ptr d cs show ?thesis by simp
  qed (use d cs pos in simp_all)
qed

text \<open>
  The first loop of \<^verbatim>\<open>iterate\<close>. \<open>pCur\<close> is the pointer to the current node,
  \<open>visited\<close> and \<open>rewards\<close> are the two stacks (top first). \<^verbatim>\<open>selectAction\<close> changes
  the random source of the current node, which is written back into the tree.
\<close>

function descend ::
  "('r, 'm, 'w) env \<Rightarrow> 'r UCTreeNode \<Rightarrow> nat list \<Rightarrow> nat list list \<Rightarrow> real list \<Rightarrow> 'm \<Rightarrow> 'w \<Rightarrow>
     fault + ('r UCTreeNode \<times> nat list \<times> nat list list \<times> real list \<times> 'm \<times> 'w)"
where
  "descend P this pCur visited rewards mdp w =
     (case deref this pCur of
        None \<Rightarrow> Inl NullDereference
      | Some cur \<Rightarrow>
          if isLeaf_i cur then Inr (this, pCur, visited, rewards, mdp, w)
          else (case selectAction P cur w of
                  Inl e \<Rightarrow> Inl e
                | Inr (action, cur', w1) \<Rightarrow>
                    (case mdp_call P mdp (int action) w1 of
                       (curReward, mdp', w2) \<Rightarrow>
                         descend P (update_at this pCur (\<lambda>_. cur')) (pCur @ [action])
                           ((pCur @ [action]) # visited) (curReward # rewards) mdp' w2)))"
  by pat_completeness auto
termination
proof (relation "measure (\<lambda>(P, this, pCur, visited, rewards, mdp, w).
         case deref this pCur of None \<Rightarrow> 0 | Some n \<Rightarrow> size n)", goal_cases)
  case 1
  show ?case by simp
next
  case (2 P this pCur visited rewards mdp w cur b action y cur' w1)
  from 2(3-5) have "selectAction P cur w = Inr (action, cur', w1)" by simp
  from descend_decreases [OF 2(1) this] 2(1) show ?case by simp
qed

declare descend.simps [simp del]


text \<open>
  The second loop of \<^verbatim>\<open>iterate\<close>. The assertion compares the sizes of the two stacks;
  \<^verbatim>\<open>gamma_i\<close> is the member of the node \<^verbatim>\<open>iterate\<close> was called on.
\<close>

fun backup :: "'r UCTreeNode \<Rightarrow> nat list list \<Rightarrow> real list \<Rightarrow> real \<Rightarrow> fault + 'r UCTreeNode" where
  "backup this [] rewards v = Inr this"
| "backup this (p # visited) rewards v =
     (case rewards of
        [] \<Rightarrow> Inl AssertionFailed
      | r # rs \<Rightarrow>
          if length visited \<noteq> length rs then Inl AssertionFailed
          else (let v' = r + gamma_i this * v in
                case deref this p of
                  None \<Rightarrow> Inl NullDereference
                | Some _ \<Rightarrow> backup (update_at this p (updateStats v')) visited rs v'))"

text \<open>
  \<^verbatim>\<open>iterate\<close>. After the descent the leaf is expanded and one child selected; the rollout
  runs on the node \<^verbatim>\<open>iterate\<close> was called on (\<^verbatim>\<open>rollOut(mdp)\<close> is a call on
  \<^verbatim>\<open>this\<close>), with a copy of the generator. The generator itself is a by-value parameter,
  so the caller's generator is not changed; the ambient state is.
\<close>

definition iterate ::
  "('r, 'm, 'w) env \<Rightarrow> 'r UCTreeNode \<Rightarrow> 'm \<Rightarrow> 'w \<Rightarrow> fault + ('r UCTreeNode \<times> 'w)"
where
  "iterate P this mdp w =
     (case descend P this [] [[]] [0] mdp w of
        Inl e \<Rightarrow> Inl e
      | Inr (t1, pCur, visited, rewards, mdp1, w1) \<Rightarrow>
          (let t2 = update_at t1 pCur (expand P) in
           case deref t2 pCur of
             None \<Rightarrow> Inl NullDereference
           | Some cur \<Rightarrow>
               (case selectAction P cur w1 of
                  Inl e \<Rightarrow> Inl e
                | Inr (action, cur', w2) \<Rightarrow>
                    (let t3 = update_at t2 pCur (\<lambda>_. cur') in
                     case mdp_call P mdp1 (int action) w2 of
                       (curReward, mdp2, w3) \<Rightarrow>
                         (case rollOut P t3 mdp2 w3 of
                            (v, t4, w4) \<Rightarrow>
                              (case backup t4 ((pCur @ [action]) # visited) (curReward # rewards) v of
                                 Inl e \<Rightarrow> Inl e
                               | Inr t5 \<Rightarrow> Inr (t5, w4)))))))"

text \<open>
  The loop of the test harness: \<^verbatim>\<open>for (k = 0; k < N_ITERATIONS; ++k) tree.iterate(bandit)\<close>.
\<close>

fun iterate_n ::
  "('r, 'm, 'w) env \<Rightarrow> nat \<Rightarrow> 'r UCTreeNode \<Rightarrow> 'm \<Rightarrow> 'w \<Rightarrow> fault + ('r UCTreeNode \<times> 'w)"
where
  "iterate_n P 0 this mdp w = Inr (this, w)"
| "iterate_n P (Suc k) this mdp w =
     (case iterate P this mdp w of
        Inl e \<Rightarrow> Inl e
      | Inr (this', w') \<Rightarrow> iterate_n P k this' mdp w')"

subsection \<open>Queries\<close>

text \<open>
  \<^verbatim>\<open>bestAction\<close>. On a leaf the result is \<^verbatim>\<open>rand_i()*N_ACTIONS\<close> converted to
  \<^verbatim>\<open>int\<close>. Otherwise the loop adds \<^verbatim>\<open>static_cast<double>(rand())*EPSILON/RAND_MAX\<close>,
  a call of the C library's \<^verbatim>\<open>rand()\<close>, to the mean value of each child.
\<close>

function bestAction_loop ::
  "('r, 'm, 'w) env \<Rightarrow> 'r UCTreeNode \<Rightarrow> nat \<Rightarrow> nat \<Rightarrow> real \<Rightarrow> 'w \<Rightarrow> fault + (int \<times> 'r UCTreeNode \<times> 'w)"
where
  "bestAction_loop P this k selected bestValue w =
     (if k < N_ACTIONS P then
        (case fetch (vpChildren_i this) k of
           Null \<Rightarrow> Inl AssertionFailed
         | Indeterminate \<Rightarrow> Inl WildDereference
         | Ptr pCur \<Rightarrow>
             (case c_rand P w of
                (c, w') \<Rightarrow>
                  (let expValue = totValue_i pCur / (nVisits_i pCur + EPSILON)
                         + real c * EPSILON / real (RAND_MAX P)
                   in if expValue \<ge> bestValue
                      then bestAction_loop P this (Suc k) k expValue w'
                      else bestAction_loop P this (Suc k) selected bestValue w')))
      else Inr (int selected, this, w))"
  by pat_completeness auto
termination
  by (relation "measure (\<lambda>(P, this, k, selected, bestValue, w). N_ACTIONS P - k)") auto

declare bestAction_loop.simps [simp del]

definition bestAction ::
  "('r, 'm, 'w) env \<Rightarrow> 'r UCTreeNode \<Rightarrow> 'w \<Rightarrow> fault + (int \<times> 'r UCTreeNode \<times> 'w)"
where
  "bestAction P this w =
     (if isLeaf_i this then
        (case URand_call P (rand_i this) w of
           (u, r', w') \<Rightarrow> Inr (to_int (u * real (N_ACTIONS P)), set_rand r' this, w'))
      else bestAction_loop P this 0 0 (- DBL_MAX) w)"

text \<open>
  The quotient of two finite doubles: for a divisor \<open>+0.0\<close> the IEEE-754 result is NaN or
  an infinity, and no trap is raised.
\<close>

datatype double = Finite real | NaN | PosInf | NegInf

definition double_div :: "real \<Rightarrow> real \<Rightarrow> double" where
  "double_div a b =
     (if b \<noteq> 0 then Finite (a / b)
      else if a = 0 then NaN
      else if 0 < a then PosInf else NegInf)"

definition vValue :: "'r UCTreeNode \<Rightarrow> double" where
  "vValue this = double_div (totValue_i this) (nVisits_i this)"

definition qValue :: "('r, 'm, 'w) env \<Rightarrow> 'r UCTreeNode \<Rightarrow> int \<Rightarrow> fault + double" where
  "qValue P this action =
     (if \<not> 0 \<le> action then Inl AssertionFailed
      else if \<not> int (N_ACTIONS P) > action then Inl AssertionFailed
      else (case fetch (vpChildren_i this) (nat action) of
              Null \<Rightarrow> Inl NullDereference
            | Indeterminate \<Rightarrow> Inl WildDereference
            | Ptr c \<Rightarrow> Inr (vValue c)))"

text \<open>
  \<^verbatim>\<open>numOfNodes\<close>. The loop over \<open>k < N_ACTIONS\<close> visits every element of the array, here
  the elements of the list in order, adding to \<^verbatim>\<open>result\<close>.
\<close>

function numOfNodes :: "'r UCTreeNode \<Rightarrow> fault + int"
  and numOfNodes_loop :: "'r UCTreeNode slot list \<Rightarrow> int \<Rightarrow> fault + int"
where
  "numOfNodes (UCTreeNode cs leaf nv tv g r) =
     (if leaf then Inr 1 else numOfNodes_loop cs 1)"
| "numOfNodes_loop [] result = Inr result"
| "numOfNodes_loop (s # ss) result =
     (case s of
        Null \<Rightarrow> Inl NullDereference
      | Indeterminate \<Rightarrow> Inl WildDereference
      | Ptr c \<Rightarrow>
          (case numOfNodes c of
             Inl e \<Rightarrow> Inl e
           | Inr n \<Rightarrow> numOfNodes_loop ss (result + n)))"
  by pat_completeness auto
termination
  by (relation "measure (\<lambda>x. case x of
         Inl n \<Rightarrow> 2 * size n
       | Inr (ss, result) \<Rightarrow> 2 * size_list (size_slot size) ss + 1)") auto


subsection \<open>The structural invariant\<close>

text \<open>
  The invariant documented at the member \<^verbatim>\<open>isLeaf_i\<close>: the array has \<^verbatim>\<open>N_ACTIONS\<close>
  elements; on a leaf all of them are null, otherwise all of them point to valid nodes, which
  satisfy the invariant in turn.
\<close>

fun invariant :: "nat \<Rightarrow> 'r UCTreeNode \<Rightarrow> bool" where
  "invariant N (UCTreeNode cs leaf nv tv g r) =
     (length cs = N \<and>
      (\<forall>s \<in> set cs. if leaf then s = Null
                     else (case s of Ptr c \<Rightarrow> invariant N c | _ \<Rightarrow> False)))"


subsection \<open>A small instance\<close>

text \<open>
  Two actions; a random source that always returns 0, a reward generator that always returns
  0, and a C library \<^verbatim>\<open>rand()\<close> that reads its results from a list held in the ambient
  state.
\<close>

definition env0 :: "(unit, unit, nat list) env" where
  "env0 = \<lparr> N_ACTIONS = 2, URand_new = (),
            URand_call = (\<lambda>r w. (0, r, w)),
            mdp_call = (\<lambda>m a w. (0, m, w)),
            c_rand = (\<lambda>w. case w of [] \<Rightarrow> (0, []) | c # cs \<Rightarrow> (c, cs)),
            RAND_MAX = 32767 \<rparr>"



text \<open>
  The same instance with a reward generator that counts its calls and returns 1 at the first two
  and 0 afterwards.
\<close>

definition env1 :: "(unit, nat, nat list) env" where
  "env1 = \<lparr> N_ACTIONS = 2, URand_new = (),
            URand_call = (\<lambda>r w. (0, r, w)),
            mdp_call = (\<lambda>m a w. (if m < 2 then 1 else 0, Suc m, w)),
            c_rand = (\<lambda>w. case w of [] \<Rightarrow> (0, []) | c # cs \<Rightarrow> (c, cs)),
            RAND_MAX = 32767 \<rparr>"

subsection \<open>Notions used to state the properties\<close>

text \<open>
  The number of nodes of a tree as a plain count, the members of a node other than its
  children and its random source, and these members for the node a pointer leads to.
\<close>

fun count :: "'r UCTreeNode \<Rightarrow> int" where
  "count (UCTreeNode cs leaf nv tv g r) =
     1 + sum_list (map (\<lambda>s. case s of Ptr c \<Rightarrow> count c | _ \<Rightarrow> 0) cs)"

definition fields :: "'r UCTreeNode \<Rightarrow> bool \<times> real \<times> real \<times> real" where
  "fields n = (isLeaf_i n, nVisits_i n, totValue_i n, gamma_i n)"

definition view :: "'r UCTreeNode \<Rightarrow> nat list \<Rightarrow> (bool \<times> real \<times> real \<times> real) option" where
  "view t q = map_option fields (deref t q)"


text \<open>
  The first \<open>n\<close> results of the random source of a node, with the state they leave; the UCT
  score of the selection rule for one child and a given noise term; the position a scan with
  \<^verbatim>\<open>>=\<close> ends on; and the property of being the greatest entry of a list, the later one
  among equals. The score and the property are written from the words of the specification;
  the theorems compare them with the loops of the code above.
\<close>

fun URand_run :: "('r, 'm, 'w) env \<Rightarrow> nat \<Rightarrow> 'r \<Rightarrow> 'w \<Rightarrow> real list \<times> 'r \<times> 'w" where
  "URand_run P 0 r w = ([], r, w)"
| "URand_run P (Suc n) r w =
     (case URand_call P r w of
        (u, r1, w1) \<Rightarrow> (case URand_run P n r1 w1 of (us, r2, w2) \<Rightarrow> (u # us, r2, w2)))"

definition uct_score :: "real \<Rightarrow> 'r UCTreeNode \<Rightarrow> real \<Rightarrow> real" where
  "uct_score parentVisits c noise =
     totValue_i c / (nVisits_i c + EPSILON)
     + sqrt (ln (parentVisits + 1) / (nVisits_i c + EPSILON))
     + noise"

definition slot_score :: "real \<Rightarrow> 'r UCTreeNode slot \<Rightarrow> real \<Rightarrow> real" where
  "slot_score pv s noise = (case s of Ptr c \<Rightarrow> uct_score pv c noise | _ \<Rightarrow> 0)"

definition last_greatest :: "real list \<Rightarrow> nat \<Rightarrow> bool" where
  "last_greatest ss i \<longleftrightarrow>
     i < length ss \<and> (\<forall>j < length ss. ss ! j \<le> ss ! i) \<and> (\<forall>j < length ss. i < j \<longrightarrow> ss ! j < ss ! i)"

fun scan :: "real list \<Rightarrow> nat \<Rightarrow> nat \<Rightarrow> real \<Rightarrow> nat" where
  "scan [] k sel best = sel"
| "scan (s # ss) k sel best = (if s \<ge> best then scan ss (Suc k) k s else scan ss (Suc k) sel best)"


text \<open>
  The first \<open>n\<close> results of the C library's \<^verbatim>\<open>rand()\<close> with the ambient state they
  leave, and the score \<^verbatim>\<open>bestAction\<close> gives a child for a given noise term.
\<close>

fun c_rand_run :: "('r, 'm, 'w) env \<Rightarrow> nat \<Rightarrow> 'w \<Rightarrow> nat list \<times> 'w" where
  "c_rand_run P 0 w = ([], w)"
| "c_rand_run P (Suc n) w =
     (case c_rand P w of (c, w1) \<Rightarrow> (case c_rand_run P n w1 of (cs, w2) \<Rightarrow> (c # cs, w2)))"

definition exp_score :: "'r UCTreeNode slot \<Rightarrow> real \<Rightarrow> real" where
  "exp_score s noise = (case s of Ptr c \<Rightarrow> totValue_i c / (nVisits_i c + EPSILON) + noise | _ \<Rightarrow> 0)"

text \<open>
  One update of the statistics (one visit more, the value added to the total); the value backed
  up through a list of rewards ordered from the node towards the new leaf, \<open>r + g * (\<dots>)\<close>
  at each step, starting from the rollout estimate \<open>v\<close>; and the members of the nodes after
  the leaf at \<open>pLeaf\<close> has been expanded.
\<close>

definition credit :: "real \<Rightarrow> bool \<times> real \<times> real \<times> real \<Rightarrow> bool \<times> real \<times> real \<times> real" where
  "credit x f = (case f of (l, nv, tv, g) \<Rightarrow> (l, nv + 1, tv + x, g))"

definition backed :: "real \<Rightarrow> real list \<Rightarrow> real \<Rightarrow> real" where
  "backed g rs v = foldr (\<lambda>r acc. r + g * acc) rs v"

definition view_expanded ::
  "nat \<Rightarrow> 'r UCTreeNode \<Rightarrow> nat list \<Rightarrow> nat list \<Rightarrow> (bool \<times> real \<times> real \<times> real) option" where
  "view_expanded N t pLeaf q =
     (if q = pLeaf then map_option (\<lambda>f. case f of (l, nv, tv, g) \<Rightarrow> (False, nv, tv, g)) (view t q)
      else if \<exists>b < N. q = pLeaf @ [b] then Some (True, 0, 0, DEFAULT_GAMMA)
      else view t q)"


section \<open>Properties\<close>

subsection \<open>Construction and expansion\<close>

lemma assign_all_eq:
  "k \<le> N \<Longrightarrow> length v = N \<Longrightarrow> assign_all k N x v = take k v @ replicate (N - k) x"
proof (induction k N x v rule: assign_all.induct)
  case (1 k N x v)
  show ?case
  proof (cases "k < N")
    case True
    then have "assign_all k N x v = assign_all (Suc k) N x (v[k := x])"
      by (subst assign_all.simps) simp
    also have "\<dots> = take (Suc k) (v[k := x]) @ replicate (N - Suc k) x"
      using True "1.prems" by (intro "1.IH") auto
    also have "\<dots> = take k v @ replicate (N - k) x"
    proof -
      have "N - k = Suc (N - Suc k)" using True by simp
      then show ?thesis using True "1.prems" by (simp add: take_Suc_conv_app_nth)
    qed
    finally show ?thesis .
  next
    case False
    with "1.prems" show ?thesis by (subst assign_all.simps) simp
  qed
qed

lemma assign_all_replicate: "length v = N \<Longrightarrow> assign_all 0 N x v = replicate N x"
  by (simp add: assign_all_eq)

lemma ctor_eq:
  "UCTreeNode_ctor P g r = UCTreeNode (replicate (N_ACTIONS P) Null) True 0 0 g r"
  by (simp add: UCTreeNode_ctor_def assign_all_replicate)

lemma expand_leaf:
  "isLeaf_i this \<Longrightarrow> length (vpChildren_i this) = N_ACTIONS P \<Longrightarrow>
   expand P this = UCTreeNode (replicate (N_ACTIONS P) (Ptr (UCTreeNode_default P))) False
     (nVisits_i this) (totValue_i this) (gamma_i this) (rand_i this)"
  by (simp add: expand_def assign_all_replicate set_children_def set_isLeaf_def)


text \<open>
  Claim C8. \<^verbatim>\<open>expand\<close> is idempotent. On a leaf the call marks the node internal and
  fills all \<^verbatim>\<open>N_ACTIONS\<close> slots with pointers to new leaves that have no visits and no
  value, leaving the other members alone; on an internal node the call changes nothing.
\<close>

theorem expand_idempotent:
  "expand P (expand P this) = expand P this \<and>
   (\<not> isLeaf_i this \<longrightarrow> expand P this = this) \<and>
   (isLeaf_i this \<and> length (vpChildren_i this) = N_ACTIONS P \<longrightarrow>
      \<not> isLeaf_i (expand P this) \<and>
      length (vpChildren_i (expand P this)) = N_ACTIONS P \<and>
      (\<forall>k < N_ACTIONS P. \<exists>c. fetch (vpChildren_i (expand P this)) k = Ptr c \<and>
           isLeaf_i c \<and> vpChildren_i c = replicate (N_ACTIONS P) Null \<and>
           nVisits_i c = 0 \<and> totValue_i c = 0) \<and>
      nVisits_i (expand P this) = nVisits_i this \<and>
      totValue_i (expand P this) = totValue_i this \<and>
      gamma_i (expand P this) = gamma_i this \<and>
      rand_i (expand P this) = rand_i this)"
proof (intro conjI impI)
  show "expand P (expand P this) = expand P this"
    by (simp add: expand_def set_children_def set_isLeaf_def)
next
  assume "\<not> isLeaf_i this"
  then show "expand P this = this" by (simp add: expand_def)
next
  assume a: "isLeaf_i this \<and> length (vpChildren_i this) = N_ACTIONS P"
  then have e: "expand P this = UCTreeNode (replicate (N_ACTIONS P) (Ptr (UCTreeNode_default P)))
      False (nVisits_i this) (totValue_i this) (gamma_i this) (rand_i this)"
    by (simp add: expand_leaf)
  show "\<not> isLeaf_i (expand P this)" "length (vpChildren_i (expand P this)) = N_ACTIONS P"
    "nVisits_i (expand P this) = nVisits_i this" "totValue_i (expand P this) = totValue_i this"
    "gamma_i (expand P this) = gamma_i this" "rand_i (expand P this) = rand_i this"
    by (simp_all add: e)
  show "\<forall>k < N_ACTIONS P. \<exists>c. fetch (vpChildren_i (expand P this)) k = Ptr c \<and>
           isLeaf_i c \<and> vpChildren_i c = replicate (N_ACTIONS P) Null \<and>
           nVisits_i c = 0 \<and> totValue_i c = 0"
    by (simp add: e fetch_def UCTreeNode_default_def ctor_eq)
qed

theorem expand_idempotent_witness:
  "expand env0 (expand env0 (UCTreeNode_ctor env0 (1 / 2) ())) = expand env0 (UCTreeNode_ctor env0 (1 / 2) ()) \<and>
   \<not> isLeaf_i (expand env0 (UCTreeNode_ctor env0 (1 / 2) ())) \<and>
   length (vpChildren_i (expand env0 (UCTreeNode_ctor env0 (1 / 2) ()))) = 2 \<and>
   (\<exists>c. fetch (vpChildren_i (expand env0 (UCTreeNode_ctor env0 (1 / 2) ()))) 1 = Ptr c \<and> isLeaf_i c \<and> nVisits_i c = 0) \<and>
   expand env0 (expand env0 (UCTreeNode [Ptr (UCTreeNode_default env0), Ptr (UCTreeNode_default env0)] False 3 2 (1 / 2) ()))
     = UCTreeNode [Ptr (UCTreeNode_default env0), Ptr (UCTreeNode_default env0)] False 3 2 (1 / 2) ()"
proof -
  have l: "isLeaf_i (UCTreeNode_ctor env0 (1 / 2) ()) \<and>
      length (vpChildren_i (UCTreeNode_ctor env0 (1 / 2) ())) = N_ACTIONS env0"
    by (simp add: ctor_eq)
  have n: "N_ACTIONS env0 = 2" "(1::nat) < 2" by (simp_all add: env0_def)
  have i: "\<not> isLeaf_i (UCTreeNode [Ptr (UCTreeNode_default env0), Ptr (UCTreeNode_default env0)] False 3 2 (1 / 2) ())"
    by simp
  show ?thesis
    using expand_idempotent [of env0 "UCTreeNode_ctor env0 (1 / 2) ()"]
      expand_idempotent [of env0 "UCTreeNode [Ptr (UCTreeNode_default env0), Ptr (UCTreeNode_default env0)] False 3 2 (1 / 2) ()"]
      l n i
    by (metis (no_types, lifting))
qed



subsection \<open>The small instance\<close>

lemma env0_run: "URand_run env0 (N_ACTIONS env0) () w = ([0, 0], (), w)"
proof -
  have "N_ACTIONS env0 = Suc (Suc 0)" "URand_call env0 = (\<lambda>r w. (0, r, w))"
    by (simp_all add: env0_def)
  then show ?thesis by simp
qed

lemma env0_expanded:
  "expand env0 (UCTreeNode_ctor env0 g ()) =
     UCTreeNode [Ptr (UCTreeNode [Null, Null] True 0 0 (9 / 10) ()),
                 Ptr (UCTreeNode [Null, Null] True 0 0 (9 / 10) ())] False 0 0 g ()"
proof -
  have n: "N_ACTIONS env0 = Suc (Suc 0)" "URand_new env0 = ()" by (simp_all add: env0_def)
  show ?thesis
    by (simp add: ctor_eq expand_def assign_all_replicate set_children_def set_isLeaf_def
        UCTreeNode_default_def DEFAULT_GAMMA_def n)
qed

lemma DBL_MAX_pos: "0 < DBL_MAX"
  unfolding DBL_MAX_def by (intro mult_pos_pos) simp_all

lemma env0_c_rand_run: "c_rand_run env0 (N_ACTIONS env0) [x, y] = ([x, y], [])"
proof -
  have "N_ACTIONS env0 = Suc (Suc 0)"
    "c_rand env0 = (\<lambda>w. case w of [] \<Rightarrow> (0, []) | c # cs \<Rightarrow> (c, cs))"
    by (simp_all add: env0_def)
  then show ?thesis by simp
qed

lemma env0_rollOut_loop:
  "MAX_ROLLOUT_ITERATIONS - k = n \<Longrightarrow> rollOut_loop env0 this () k d 0 w = (0, this, w)"
proof (induction n arbitrary: k d)
  case 0
  then have "\<not> k < MAX_ROLLOUT_ITERATIONS" by simp
  then show ?case by (subst rollOut_loop.simps) simp
next
  case (Suc n)
  then have k: "k < MAX_ROLLOUT_ITERATIONS" and n: "MAX_ROLLOUT_ITERATIONS - Suc k = n" by simp_all
  have e: "URand_call env0 = (\<lambda>r w. (0, r, w))" "mdp_call env0 = (\<lambda>m a w. (0, m, w))"
    by (simp_all add: env0_def)
  have sr: "set_rand () this = this" by (cases this) (simp add: set_rand_def)
  show ?case
    by (subst rollOut_loop.simps) (simp add: k e sr Suc.IH [OF n])
qed

lemma env0_iterate:
  "iterate env0 (UCTreeNode_ctor env0 g ()) () w =
     Inr (UCTreeNode [Ptr (UCTreeNode [Null, Null] True 0 0 (9 / 10) ()),
                      Ptr (UCTreeNode [Null, Null] True 1 0 (9 / 10) ())] False 1 0 g (), w)"
proof -
  have n: "N_ACTIONS env0 = Suc (Suc 0)" "URand_new env0 = ()"
    "URand_call env0 = (\<lambda>r w. (0, r, w))" "mdp_call env0 = (\<lambda>m a w. (0, m, w))"
    by (simp_all add: env0_def)
  let ?l = "UCTreeNode [Null, Null] True 0 0 g ()"
  have c: "UCTreeNode_ctor env0 g () = ?l"
    by (simp add: ctor_eq n)
  have d: "descend env0 ?l [] [[]] [0] () w = Inr (?l, [], [[]], [0], (), w)"
    by (subst descend.simps) simp
  let ?e = "UCTreeNode [Ptr (UCTreeNode [Null, Null] True 0 0 (9 / 10) ()),
                 Ptr (UCTreeNode [Null, Null] True 0 0 (9 / 10) ())] False 0 0 g ()"
  have e: "expand env0 ?l = ?e"
    using env0_expanded [of g] by (simp only: c)
  have s: "selectAction env0 ?e w = Inr (1, ?e, w)"
    by (simp add: selectAction_def selectAction_loop.simps n fetch_def set_rand_def
        EPSILON_def DBL_MAX_def)
  have ro: "rollOut env0 ?e () w = (0, ?e, w)"
    unfolding rollOut_def by (rule env0_rollOut_loop [OF refl])
  show ?thesis
    unfolding c
    by (simp add: iterate_def d e s n(4) ro fetch_def updateStats_def set_children_def)
qed


lemma env1_rollOut_loop:
  "MAX_ROLLOUT_ITERATIONS - k = n \<Longrightarrow> 2 \<le> m \<Longrightarrow> rollOut_loop env1 this m k d x w = (x, this, w)"
proof (induction n arbitrary: k d m)
  case 0
  then have "\<not> k < MAX_ROLLOUT_ITERATIONS" by simp
  then show ?case by (subst rollOut_loop.simps) simp
next
  case (Suc n)
  then have k: "k < MAX_ROLLOUT_ITERATIONS" and n: "MAX_ROLLOUT_ITERATIONS - Suc k = n" by simp_all
  have e: "URand_call env1 = (\<lambda>r w. (0, r, w))"
    "mdp_call env1 = (\<lambda>m a w. (if m < 2 then 1 else 0, Suc m, w))"
    by (simp_all add: env1_def)
  have sr: "set_rand () this = this" by (cases this) (simp add: set_rand_def)
  have m: "\<not> m < 2" "2 \<le> Suc m" using Suc.prems(2) by simp_all
  show ?case
    by (subst rollOut_loop.simps) (simp add: k e sr m Suc.IH [OF n m(2)])
qed

lemma env1_rollOut: "rollOut env1 this (Suc 0) w = (1, this, w)"
proof -
  have e: "URand_call env1 = (\<lambda>r w. (0, r, w))"
    "mdp_call env1 = (\<lambda>m a w. (if m < 2 then 1 else 0, Suc m, w))"
    by (simp_all add: env1_def)
  have sr: "set_rand () this = this" by (cases this) (simp add: set_rand_def)
  have k: "0 < MAX_ROLLOUT_ITERATIONS" by (simp add: MAX_ROLLOUT_ITERATIONS_def)
  have "rollOut_loop env1 this (Suc 0) 0 1 0 w = rollOut_loop env1 this (Suc (Suc 0)) (Suc 0) (gamma_i this) 1 w"
    by (subst rollOut_loop.simps) (simp add: k e sr)
  also have "\<dots> = (1, this, w)"
    by (rule env1_rollOut_loop [OF refl]) simp
  finally show ?thesis by (simp add: rollOut_def)
qed

lemma env1_phases:
  "UCTreeNode_ctor env1 g () = UCTreeNode [Null, Null] True 0 0 g ()"
  "descend env1 (UCTreeNode [Null, Null] True 0 0 g ()) [] [[]] [0] 0 w
     = Inr (UCTreeNode [Null, Null] True 0 0 g (), [], [[]], [0], 0, w)"
  "expand env1 (UCTreeNode [Null, Null] True 0 0 g ())
     = UCTreeNode [Ptr (UCTreeNode [Null, Null] True 0 0 (9 / 10) ()),
                   Ptr (UCTreeNode [Null, Null] True 0 0 (9 / 10) ())] False 0 0 g ()"
  "selectAction env1 (UCTreeNode [Ptr (UCTreeNode [Null, Null] True 0 0 (9 / 10) ()),
                   Ptr (UCTreeNode [Null, Null] True 0 0 (9 / 10) ())] False 0 0 g ()) w
     = Inr (1, UCTreeNode [Ptr (UCTreeNode [Null, Null] True 0 0 (9 / 10) ()),
                   Ptr (UCTreeNode [Null, Null] True 0 0 (9 / 10) ())] False 0 0 g (), w)"
  "mdp_call env1 0 1 w = (1, Suc 0, w)"
proof -
  have n: "N_ACTIONS env1 = Suc (Suc 0)" "URand_new env1 = ()"
    "URand_call env1 = (\<lambda>r w. (0, r, w))"
    "mdp_call env1 = (\<lambda>m a w. (if m < 2 then 1 else 0, Suc m, w))"
    by (simp_all add: env1_def)
  show "UCTreeNode_ctor env1 g () = UCTreeNode [Null, Null] True 0 0 g ()"
    by (simp add: ctor_eq n)
  show "descend env1 (UCTreeNode [Null, Null] True 0 0 g ()) [] [[]] [0] 0 w
     = Inr (UCTreeNode [Null, Null] True 0 0 g (), [], [[]], [0], 0, w)"
    by (subst descend.simps) simp
  show "expand env1 (UCTreeNode [Null, Null] True 0 0 g ())
     = UCTreeNode [Ptr (UCTreeNode [Null, Null] True 0 0 (9 / 10) ()),
                   Ptr (UCTreeNode [Null, Null] True 0 0 (9 / 10) ())] False 0 0 g ()"
    by (simp add: ctor_eq expand_def assign_all_replicate set_children_def set_isLeaf_def
        UCTreeNode_default_def DEFAULT_GAMMA_def n)
  show "selectAction env1 (UCTreeNode [Ptr (UCTreeNode [Null, Null] True 0 0 (9 / 10) ()),
                   Ptr (UCTreeNode [Null, Null] True 0 0 (9 / 10) ())] False 0 0 g ()) w
     = Inr (1, UCTreeNode [Ptr (UCTreeNode [Null, Null] True 0 0 (9 / 10) ()),
                   Ptr (UCTreeNode [Null, Null] True 0 0 (9 / 10) ())] False 0 0 g (), w)"
    by (simp add: selectAction_def selectAction_loop.simps n fetch_def set_rand_def
        EPSILON_def DBL_MAX_def)
  show "mdp_call env1 0 1 w = (1, Suc 0, w)" by (simp add: n)
qed

subsection \<open>Pointers, updates and the invariant\<close>

lemma fetch_Ptr_nth: "fetch cs a = Ptr c \<Longrightarrow> a < length cs \<and> cs ! a = Ptr c"
  by (simp add: fetch_def split: if_splits)

lemma fetch_update: "a < length cs \<Longrightarrow> fetch (cs[a := x]) b = (if b = a then x else fetch cs b)"
  by (simp add: fetch_def)

lemma fields_set_children [simp]: "fields (set_children cs n) = fields n"
  by (simp add: fields_def set_children_def)

lemma fields_set_rand [simp]: "fields (set_rand r n) = fields n"
  by (simp add: fields_def set_rand_def)

lemma vpChildren_set_children [simp]: "vpChildren_i (set_children cs n) = cs"
  by (simp add: set_children_def)

lemma vpChildren_set_rand [simp]: "vpChildren_i (set_rand r n) = vpChildren_i n"
  by (simp add: set_rand_def)

lemma vpChildren_updateStats [simp]: "vpChildren_i (updateStats v n) = vpChildren_i n"
  by (simp add: updateStats_def)

lemma view_update_at:
  "deref t p = Some n \<Longrightarrow>
   view (update_at t p f) q =
     (if prefix p q then view (f n) (drop (length p) q) else view t q)"
proof (induction p arbitrary: t q)
  case Nil
  then show ?case by simp
next
  case (Cons a p)
  from Cons.prems obtain c where c: "fetch (vpChildren_i t) a = Ptr c" "deref c p = Some n"
    by (auto split: slot.splits)
  from c(1) have a: "a < length (vpChildren_i t)" by (simp add: fetch_Ptr_nth)
  show ?case
  proof (cases q)
    case Nil
    with c show ?thesis by (simp add: view_def)
  next
    case (Cons b q')
    show ?thesis
    proof (cases "b = a")
      case True
      have "view (update_at t (a # p) f) (a # q') = view (update_at c p f) q'"
        using c a by (simp add: view_def fetch_update)
      also have "\<dots> = (if prefix p q' then view (f n) (drop (length p) q') else view c q')"
        by (rule Cons.IH [OF c(2)])
      also have "view c q' = view t (a # q')" using c by (simp add: view_def)
      finally show ?thesis using True Cons by simp
    next
      case False
      then show ?thesis using c a Cons by (simp add: view_def fetch_update)
    qed
  qed
qed

lemma view_Nil [simp]: "view t [] = Some (fields t)"
  by (simp add: view_def)

lemma view_same_children:
  "vpChildren_i n' = vpChildren_i n \<Longrightarrow> x \<noteq> [] \<Longrightarrow> view n' x = view n x"
  by (cases x) (simp_all add: view_def)

lemma invariant_not_leaf:
  "invariant N t \<Longrightarrow> fetch (vpChildren_i t) a = Ptr c \<Longrightarrow> \<not> isLeaf_i t \<and> invariant N c"
proof -
  assume i: "invariant N t" and f: "fetch (vpChildren_i t) a = Ptr c"
  from f have "Ptr c \<in> set (vpChildren_i t)"
    using fetch_Ptr_nth nth_mem by metis
  with i show ?thesis by (cases t) (auto split: if_splits)
qed

lemma invariant_deref: "invariant N t \<Longrightarrow> deref t p = Some n \<Longrightarrow> invariant N n"
proof (induction p arbitrary: t)
  case Nil then show ?case by simp
next
  case (Cons a p)
  then show ?case by (auto split: slot.splits dest: invariant_not_leaf)
qed

lemma invariant_update_at:
  "invariant N t \<Longrightarrow> deref t p = Some n \<Longrightarrow> invariant N (f n) \<Longrightarrow> invariant N (update_at t p f)"
proof (induction p arbitrary: t)
  case Nil then show ?case by simp
next
  case (Cons a p)
  from Cons.prems obtain c where c: "fetch (vpChildren_i t) a = Ptr c" "deref c p = Some n"
    by (auto split: slot.splits)
  from invariant_not_leaf [OF Cons.prems(1) c(1)] have nl: "\<not> isLeaf_i t" and ic: "invariant N c"
    by simp_all
  have ic': "invariant N (update_at c p f)" by (rule Cons.IH [OF ic c(2) Cons.prems(3)])
  have sub: "set ((vpChildren_i t)[a := Ptr (update_at c p f)]) \<subseteq> insert (Ptr (update_at c p f)) (set (vpChildren_i t))"
    by (rule set_update_subset_insert)
  show ?case using Cons.prems(1) c(1) nl ic' sub
    by (cases t) (auto simp: set_children_def)
qed

lemma sum_list_map_update:
  fixes g :: "'a \<Rightarrow> int"
  shows "a < length cs \<Longrightarrow> sum_list (map g (cs[a := x])) = sum_list (map g cs) - g (cs ! a) + g x"
proof (induction cs arbitrary: a)
  case Nil then show ?case by simp
next
  case (Cons s cs)
  then show ?case by (cases a) simp_all
qed

lemma count_update_at:
  "deref t p = Some n \<Longrightarrow> count (update_at t p f) = count t - count n + count (f n)"
proof (induction p arbitrary: t)
  case Nil then show ?case by simp
next
  case (Cons a p)
  from Cons.prems obtain c where c: "fetch (vpChildren_i t) a = Ptr c" "deref c p = Some n"
    by (auto split: slot.splits)
  from c(1) have a: "a < length (vpChildren_i t)" "vpChildren_i t ! a = Ptr c"
    by (simp_all add: fetch_Ptr_nth)
  show ?case using c a Cons.IH [OF c(2)]
    by (cases t) (simp add: set_children_def sum_list_map_update)
qed

lemma numOfNodes_loop_count:
  "(\<forall>s \<in> set ss. \<exists>c. s = Ptr c \<and> numOfNodes c = Inr (count c)) \<Longrightarrow>
   numOfNodes_loop ss r = Inr (r + sum_list (map (\<lambda>s. case s of Ptr c \<Rightarrow> count c | _ \<Rightarrow> 0) ss))"
  by (induction ss arbitrary: r) auto

lemma numOfNodes_count: "invariant N t \<Longrightarrow> numOfNodes t = Inr (count t)"
proof (induction t rule: count.induct)
  case (1 cs leaf nv tv g r)
  show ?case
  proof (cases leaf)
    case True
    with "1.prems" have "\<forall>s \<in> set cs. s = Null" by simp
    then have "sum_list (map (\<lambda>s. case s of Ptr c \<Rightarrow> count c | _ \<Rightarrow> 0) cs) = 0"
      by (induction cs) auto
    with True show ?thesis by simp
  next
    case False
    have "\<forall>s \<in> set cs. \<exists>c. s = Ptr c \<and> numOfNodes c = Inr (count c)"
    proof
      fix s assume s: "s \<in> set cs"
      with "1.prems" False obtain c where c: "s = Ptr c" "invariant N c"
        by (cases s) auto
      with "1.IH" s show "\<exists>c. s = Ptr c \<and> numOfNodes c = Inr (count c)" by simp
    qed
    from numOfNodes_loop_count [OF this] False show ?thesis by simp
  qed
qed

subsection \<open>The selection loop\<close>

lemma scan_spec:
  "((\<forall>s \<in> set ss. s < best) \<and> scan ss k sel best = sel) \<or>
   (\<exists>i < length ss. scan ss k sel best = k + i \<and> best \<le> ss ! i \<and> last_greatest ss i)"
proof (induction ss arbitrary: k sel best)
  case Nil
  then show ?case by simp
next
  case (Cons s ss)
  show ?case
  proof (cases "s \<ge> best")
    case True
    from Cons.IH [of s "Suc k" k]
    show ?thesis
    proof (elim disjE conjE exE)
      assume a: "\<forall>x \<in> set ss. x < s" "scan ss (Suc k) k s = k"
      have "last_greatest (s # ss) 0"
        unfolding last_greatest_def using a(1)
        by (auto simp: nth_Cons less_eq_real_def split: nat.splits)
      with True a(2) show ?thesis by auto
    next
      fix i assume a: "i < length ss" "scan ss (Suc k) k s = Suc k + i" "s \<le> ss ! i"
        "last_greatest ss i"
      have "last_greatest (s # ss) (Suc i)"
        unfolding last_greatest_def using a(1,3,4)
        by (auto simp: nth_Cons last_greatest_def split: nat.splits)
      with True a show ?thesis by (intro disjI2 exI [of _ "Suc i"]) auto
    qed
  next
    case False
    from Cons.IH [of best "Suc k" sel]
    show ?thesis
    proof (elim disjE conjE exE)
      assume a: "\<forall>x \<in> set ss. x < best" "scan ss (Suc k) sel best = sel"
      with False show ?thesis by auto
    next
      fix i assume a: "i < length ss" "scan ss (Suc k) sel best = Suc k + i" "best \<le> ss ! i"
        "last_greatest ss i"
      have "last_greatest (s # ss) (Suc i)"
        unfolding last_greatest_def using a(1,3,4) False
        by (auto simp: nth_Cons last_greatest_def split: nat.splits)
      with False a show ?thesis by (intro disjI2 exI [of _ "Suc i"]) auto
    qed
  qed
qed


lemma selectAction_loop_scan:
  "N_ACTIONS P - k = n \<Longrightarrow> k \<le> N_ACTIONS P \<Longrightarrow>
   \<forall>j < N_ACTIONS P. \<exists>c. fetch (vpChildren_i this) j = Ptr c \<Longrightarrow>
   selectAction_loop P this k sel best w =
     (case URand_run P n (rand_i this) w of
        (us, r', w') \<Rightarrow>
          Inr (scan (map (\<lambda>i. slot_score (nVisits_i this) (fetch (vpChildren_i this) (k + i)) (us ! i * EPSILON))
                       [0 ..< n]) k sel best,
               set_rand r' this, w'))"
proof (induction n arbitrary: k this sel best w)
  case 0
  then have "\<not> k < N_ACTIONS P" by simp
  moreover have "set_rand (rand_i this) this = this" by (cases this) (simp add: set_rand_def)
  ultimately show ?case by (subst selectAction_loop.simps) simp
next
  case (Suc n)
  then have k: "k < N_ACTIONS P" by simp
  then obtain c where c: "fetch (vpChildren_i this) k = Ptr c" using Suc.prems by blast
  obtain u r1 w1 where u: "URand_call P (rand_i this) w = (u, r1, w1)"
    by (cases "URand_call P (rand_i this) w")
  obtain us r2 w2 where us: "URand_run P n r1 w1 = (us, r2, w2)"
    by (cases "URand_run P n r1 w1")
  let ?uct = "totValue_i c / (nVisits_i c + EPSILON)
         + sqrt (ln (nVisits_i this + 1) / (nVisits_i c + EPSILON)) + u * EPSILON"
  let ?rest = "map (\<lambda>i. slot_score (nVisits_i this) (fetch (vpChildren_i this) (Suc k + i)) (us ! i * EPSILON)) [0 ..< n]"
  have s0: "slot_score (nVisits_i this) (fetch (vpChildren_i this) k) (u * EPSILON) = ?uct"
    by (simp add: slot_score_def uct_score_def c)
  have rest: "selectAction_loop P (set_rand r1 this) (Suc k) sel' best' w1 =
        Inr (scan ?rest (Suc k) sel' best', set_rand r2 this, w2)" for sel' best'
  proof -
    have "selectAction_loop P (set_rand r1 this) (Suc k) sel' best' w1 =
     (case URand_run P n (rand_i (set_rand r1 this)) w1 of
        (us, r', w') \<Rightarrow>
          Inr (scan (map (\<lambda>i. slot_score (nVisits_i (set_rand r1 this))
                 (fetch (vpChildren_i (set_rand r1 this)) (Suc k + i)) (us ! i * EPSILON))
                       [0 ..< n]) (Suc k) sel' best',
               set_rand r' (set_rand r1 this), w'))"
      using Suc.prems k by (intro Suc.IH) simp_all
    then show ?thesis by (simp add: set_rand_def us)
  qed
  have run: "URand_run P (Suc n) (rand_i this) w = (u # us, r2, w2)"
    by (simp add: u us)
  have m: "map (\<lambda>i. slot_score (nVisits_i this) (fetch (vpChildren_i this) (k + i)) ((u # us) ! i * EPSILON)) [0 ..< Suc n]
      = ?uct # ?rest"
    by (simp add: map_upt_Suc s0 del: upt_Suc)
  have "selectAction_loop P this k sel best w =
      (if ?uct \<ge> best then selectAction_loop P (set_rand r1 this) (Suc k) k ?uct w1
       else selectAction_loop P (set_rand r1 this) (Suc k) sel best w1)"
    by (subst selectAction_loop.simps) (simp add: k c u Let_def)
  also have "\<dots> = Inr (scan (?uct # ?rest) k sel best, set_rand r2 this, w2)"
    by (simp add: rest)
  finally show ?case by (simp only: run m prod.case)
qed

lemma scan_bound: "scan ss k sel best = sel \<or> (k \<le> scan ss k sel best \<and> scan ss k sel best < k + length ss)"
  using scan_spec [of ss best k sel] by auto

lemma selectAction_ok:
  assumes "\<not> isLeaf_i this" and "0 < N_ACTIONS P"
    and "\<forall>j < N_ACTIONS P. \<exists>c. fetch (vpChildren_i this) j = Ptr c"
  shows "\<exists>sel r' w'. selectAction P this w = Inr (sel, set_rand r' this, w') \<and> sel < N_ACTIONS P"
proof -
  obtain us r' w' where us: "URand_run P (N_ACTIONS P) (rand_i this) w = (us, r', w')"
    by (cases "URand_run P (N_ACTIONS P) (rand_i this) w")
  let ?ss = "map (\<lambda>i. slot_score (nVisits_i this) (fetch (vpChildren_i this) (0 + i)) (us ! i * EPSILON))
                       [0 ..< N_ACTIONS P]"
  have "selectAction P this w = Inr (scan ?ss 0 0 (- DBL_MAX), set_rand r' this, w')"
    using assms(1) selectAction_loop_scan [OF _ _ assms(3), of 0 "N_ACTIONS P" 0 "- DBL_MAX" w]
    by (simp add: selectAction_def us)
  moreover have "scan ?ss 0 0 (- DBL_MAX) < N_ACTIONS P"
    using scan_bound [of ?ss 0 0 "- DBL_MAX"] assms(2) by auto
  ultimately show ?thesis by blast
qed

subsection \<open>The phases of one iteration\<close>

lemma rollOut_loop_same:
  "MAX_ROLLOUT_ITERATIONS - k = n \<Longrightarrow>
   \<exists>v r' w'. rollOut_loop P this mdp k discount totReward w = (v, set_rand r' this, w')"
proof (induction n arbitrary: k this mdp discount totReward w)
  case 0
  then have "\<not> k < MAX_ROLLOUT_ITERATIONS" by simp
  moreover have "set_rand (rand_i this) this = this" by (cases this) (simp add: set_rand_def)
  ultimately show ?case by (subst rollOut_loop.simps) (simp, metis)
next
  case (Suc n)
  then have k: "k < MAX_ROLLOUT_ITERATIONS" and n: "MAX_ROLLOUT_ITERATIONS - Suc k = n" by simp_all
  obtain u r1 w1 where u: "URand_call P (rand_i this) w = (u, r1, w1)"
    by (cases "URand_call P (rand_i this) w")
  obtain reward mdp' w2 where m: "mdp_call P mdp (to_int (u * real (N_ACTIONS P))) w1 = (reward, mdp', w2)"
    by (cases "mdp_call P mdp (to_int (u * real (N_ACTIONS P))) w1")
  from Suc.IH [OF n, of "set_rand r1 this" mdp' "discount * gamma_i this" "totReward + discount * reward" w2]
  obtain v r' w' where "rollOut_loop P (set_rand r1 this) mdp' (Suc k) (discount * gamma_i this)
      (totReward + discount * reward) w2 = (v, set_rand r' (set_rand r1 this), w')" by blast
  moreover have "set_rand r' (set_rand r1 this) = set_rand r' this" by (simp add: set_rand_def)
  ultimately have "rollOut_loop P this mdp k discount totReward w = (v, set_rand r' this, w')"
    by (subst rollOut_loop.simps) (simp add: k u m Let_def)
  then show ?case by blast
qed

lemma rollOut_same: "\<exists>v r' w'. rollOut P this mdp w = (v, set_rand r' this, w')"
  unfolding rollOut_def by (rule rollOut_loop_same [OF refl])

lemma view_append: "deref t p = Some n \<Longrightarrow> view t (p @ x) = view n x"
proof (induction p arbitrary: t)
  case Nil then show ?case by (simp add: view_def)
next
  case (Cons a p)
  then show ?case by (auto simp: view_def split: slot.splits)
qed

lemma deref_append: "deref t p = Some n \<Longrightarrow> deref t (p @ x) = deref n x"
proof (induction p arbitrary: t)
  case Nil then show ?case by simp
next
  case (Cons a p)
  then show ?case by (auto split: slot.splits)
qed

lemma view_same:
  "vpChildren_i n' = vpChildren_i n \<Longrightarrow> fields n' = fields n \<Longrightarrow> view n' x = view n x"
  by (cases x) (simp_all add: view_def)

lemma view_update_at_same:
  assumes "deref t p = Some n" and "vpChildren_i n' = vpChildren_i n" and "fields n' = fields n"
  shows "view (update_at t p (\<lambda>_. n')) = view t"
proof
  fix q
  show "view (update_at t p (\<lambda>_. n')) q = view t q"
  proof (cases "prefix p q")
    case True
    then obtain x where x: "q = p @ x" by (auto simp: prefix_def)
    have "view (update_at t p (\<lambda>_. n')) q = view n' x"
      using view_update_at [OF assms(1), of "\<lambda>_. n'" q] x by simp
    also have "\<dots> = view n x" by (rule view_same [OF assms(2,3)])
    also have "\<dots> = view t q" using view_append [OF assms(1)] x by simp
    finally show ?thesis .
  next
    case False
    then show ?thesis using view_update_at [OF assms(1), of "\<lambda>_. n'" q] by simp
  qed
qed

lemma invariant_set_rand [simp]: "invariant N (set_rand r n) = invariant N n"
  by (cases n) (simp add: set_rand_def)

lemma count_set_rand [simp]: "count (set_rand r n) = count n"
  by (cases n) (simp add: set_rand_def)

lemma invariant_updateStats [simp]: "invariant N (updateStats v n) = invariant N n"
  by (cases n) (simp add: updateStats_def)

lemma count_updateStats [simp]: "count (updateStats v n) = count n"
  by (cases n) (simp add: updateStats_def)

lemma invariant_children:
  "invariant N n \<Longrightarrow> \<not> isLeaf_i n \<Longrightarrow> \<forall>j < N. \<exists>c. fetch (vpChildren_i n) j = Ptr c"
proof (intro allI impI)
  fix j assume a: "invariant N n" "\<not> isLeaf_i n" "j < N"
  obtain cs leaf nv tv g r where n: "n = UCTreeNode cs leaf nv tv g r" by (cases n)
  from a n have len: "length cs = N" and nl: "\<not> leaf"
    and all: "\<forall>s \<in> set cs. case s of Ptr c \<Rightarrow> invariant N c | _ \<Rightarrow> False"
    by simp_all
  from len a(3) have "cs ! j \<in> set cs" by simp
  with all have "case cs ! j of Ptr c \<Rightarrow> invariant N c | _ \<Rightarrow> False" by blast
  then obtain c where "cs ! j = Ptr c" by (cases "cs ! j") simp_all
  with len a(3) n show "\<exists>c. fetch (vpChildren_i n) j = Ptr c" by (simp add: fetch_def)
qed

lemma descend_ok:
  "0 < N_ACTIONS P \<Longrightarrow> invariant (N_ACTIONS P) t \<Longrightarrow> deref t pCur \<noteq> None \<Longrightarrow>
     \<exists>t1 pLeaf vis1 rew1 m1 w1 leaf new.
        descend P t pCur visited rewards mdp w = Inr (t1, pLeaf, vis1, rew1, m1, w1) \<and>
        invariant (N_ACTIONS P) t1 \<and> count t1 = count t \<and> view t1 = view t \<and>
        deref t1 pLeaf = Some leaf \<and> isLeaf_i leaf \<and> prefix pCur pLeaf \<and>
        (visited = rev (prefixes pCur) \<longrightarrow> vis1 = rev (prefixes pLeaf)) \<and>
        rew1 = new @ rewards \<and> length new + length pCur = length pLeaf"
proof (induction P t pCur visited rewards mdp w rule: descend.induct)
  case (1 P this pCur visited rewards mdp w)
  from "1.prems" obtain cur where cur: "deref this pCur = Some cur" by auto
  have icur: "invariant (N_ACTIONS P) cur" by (rule invariant_deref [OF "1.prems"(2) cur])
  show ?case
  proof (cases "isLeaf_i cur")
    case True
    have "descend P this pCur visited rewards mdp w = Inr (this, pCur, visited, rewards, mdp, w)"
      by (subst descend.simps) (simp add: cur True)
    with "1.prems"(2) cur True show ?thesis by simp
  next
    case False
    from selectAction_ok [OF False "1.prems"(1) invariant_children [OF icur False], of w]
    obtain action r' w1 where sel: "selectAction P cur w = Inr (action, set_rand r' cur, w1)"
      and a: "action < N_ACTIONS P" by blast
    obtain curReward mdp' w2 where m: "mdp_call P mdp (int action) w1 = (curReward, mdp', w2)"
      by (cases "mdp_call P mdp (int action) w1")
    let ?t = "update_at this pCur (\<lambda>_. set_rand r' cur)"
    let ?p = "pCur @ [action]"
    have it: "invariant (N_ACTIONS P) ?t"
      by (rule invariant_update_at [OF "1.prems"(2) cur]) (simp add: icur)
    have ct: "count ?t = count this"
      using count_update_at [OF cur, of "\<lambda>_. set_rand r' cur"] by simp
    have vt: "view ?t = view this"
      by (rule view_update_at_same [OF cur]) simp_all
    obtain c where c: "fetch (vpChildren_i cur) action = Ptr c"
      using invariant_children [OF icur False] a by blast
    have "deref ?t ?p = deref (set_rand r' cur) [action]"
      by (rule deref_update_at [OF cur])
    with c have dt: "deref ?t ?p \<noteq> None" by simp
    have ih: "\<exists>t1 pLeaf vis1 rew1 m1 w1' leaf new.
      descend P ?t ?p (?p # visited) (curReward # rewards) mdp' w2 = Inr (t1, pLeaf, vis1, rew1, m1, w1') \<and>
      invariant (N_ACTIONS P) t1 \<and> count t1 = count ?t \<and> view t1 = view ?t \<and>
      deref t1 pLeaf = Some leaf \<and> isLeaf_i leaf \<and> prefix ?p pLeaf \<and>
      (?p # visited = rev (prefixes ?p) \<longrightarrow> vis1 = rev (prefixes pLeaf)) \<and>
      rew1 = new @ curReward # rewards \<and> length new + length ?p = length pLeaf"
      by (rule "1.IH" [OF cur False sel refl refl m [symmetric] refl "1.prems"(1) it dt])
    show ?thesis
      using ih
    proof (elim exE conjE)
      fix t1 pLeaf vis1 rew1 m1 w1' leaf new
      assume r1: "descend P ?t ?p (?p # visited) (curReward # rewards) mdp' w2 = Inr (t1, pLeaf, vis1, rew1, m1, w1')"
        and r2: "invariant (N_ACTIONS P) t1" and r3: "count t1 = count ?t" and r4: "view t1 = view ?t"
        and r5: "deref t1 pLeaf = Some leaf" and r6: "isLeaf_i leaf" and r7: "prefix ?p pLeaf"
        and r8: "?p # visited = rev (prefixes ?p) \<longrightarrow> vis1 = rev (prefixes pLeaf)"
        and r9: "rew1 = new @ curReward # rewards" and r10: "length new + length ?p = length pLeaf"
      have d: "descend P this pCur visited rewards mdp w = Inr (t1, pLeaf, vis1, rew1, m1, w1')"
        by (subst descend.simps) (simp add: cur False sel m r1)
      have pre: "prefix pCur pLeaf" using r7 by (rule append_prefixD)
      have vis: "visited = rev (prefixes pCur) \<longrightarrow> vis1 = rev (prefixes pLeaf)"
        using r8 by simp
      have rw: "rew1 = (new @ [curReward]) @ rewards" "length (new @ [curReward]) + length pCur = length pLeaf"
        using r9 r10 by simp_all
      have c1: "count t1 = count this" using r3 ct by simp
      have v1: "view t1 = view this" using r4 vt by simp
      show ?thesis
        apply (rule exI [of _ t1], rule exI [of _ pLeaf], rule exI [of _ vis1], rule exI [of _ rew1])
        apply (rule exI [of _ m1], rule exI [of _ w1'], rule exI [of _ leaf], rule exI [of _ "new @ [curReward]"])
        apply (intro conjI)
        apply (rule d, rule r2, rule c1, rule v1, rule r5, rule r6, rule pre, rule vis, rule rw(1), rule rw(2))
        done
    qed
  qed
qed

lemma fields_updateStats [simp]: "fields (updateStats x n) = credit x (fields n)"
  by (simp add: fields_def updateStats_def credit_def)

lemma backed_snoc: "backed g (rs @ [r]) v = backed g rs (r + g * v)"
  by (simp add: backed_def)

lemma deref_prefix: "deref t (p @ x) \<noteq> None \<Longrightarrow> deref t p \<noteq> None"
proof (induction p arbitrary: t)
  case Nil then show ?case by simp
next
  case (Cons a p)
  then show ?case by (auto split: slot.splits)
qed

lemma view_None: "view t q = None \<longleftrightarrow> deref t q = None"
  by (simp add: view_def)

lemma backup_view:
  "deref t p \<noteq> None \<Longrightarrow> length rs = Suc (length p) \<Longrightarrow>
   \<exists>t5. backup t (rev (prefixes p)) rs v = Inr t5 \<and>
        (\<forall>q. view t5 q =
           (if prefix q p
            then map_option (credit (backed (gamma_i t) (drop (length q) (rev rs)) v)) (view t q)
            else view t q))"
proof (induction p arbitrary: t rs v rule: rev_induct)
  case Nil
  then obtain r where rs: "rs = [r]" by (cases rs) auto
  let ?v = "r + gamma_i t * v"
  have b: "backup t (rev (prefixes [])) rs v = Inr (updateStats ?v t)"
    by (simp add: rs)
  have v: "view (updateStats ?v t) q =
      (if prefix q [] then map_option (credit (backed (gamma_i t) (drop (length q) (rev rs)) v)) (view t q)
       else view t q)" for q
  proof (cases q)
    case Nil
    then show ?thesis by (simp add: rs backed_def)
  next
    case (Cons b q')
    then show ?thesis using view_same_children [of "updateStats ?v t" t q] by simp
  qed
  show ?case using b v by simp
next
  case (snoc a p)
  from snoc.prems(2) obtain r rs' where rs: "rs = r # rs'" and len: "length rs' = Suc (length p)"
    by (cases rs) auto
  from snoc.prems(1) obtain n where n: "deref t (p @ [a]) = Some n" by auto
  let ?v = "r + gamma_i t * v"
  let ?t = "update_at t (p @ [a]) (updateStats ?v)"
  have vt: "view ?t q = (if prefix (p @ [a]) q then view (updateStats ?v n) (drop (length (p @ [a])) q) else view t q)" for q
    by (rule view_update_at [OF n])
  have "view ?t [] = view t []" using vt [of "[]"] by simp
  then have g: "gamma_i ?t = gamma_i t" by (simp add: fields_def)
  have "deref t p \<noteq> None" using snoc.prems(1) by (rule deref_prefix)
  then have "view ?t p \<noteq> None" using vt [of p] by (simp add: view_None)
  then have dp: "deref ?t p \<noteq> None" by (simp add: view_None)
  from snoc.IH [OF dp len, of ?v]
  obtain t5 where t5: "backup ?t (rev (prefixes p)) rs' ?v = Inr t5"
    "\<And>q. view t5 q = (if prefix q p
            then map_option (credit (backed (gamma_i ?t) (drop (length q) (rev rs')) ?v)) (view ?t q)
            else view ?t q)" by blast
  have b: "backup t (rev (prefixes (p @ [a]))) rs v = Inr t5"
    using t5(1) n len by (simp add: rs prefixes_snoc)
  have v: "view t5 q =
           (if prefix q (p @ [a])
            then map_option (credit (backed (gamma_i t) (drop (length q) (rev rs)) v)) (view t q)
            else view t q)" for q
  proof -
    consider (leaf) "q = p @ [a]" | (inner) "prefix q p" | (off) "\<not> prefix q (p @ [a])"
      by (auto simp: prefix_snoc)
    then show ?thesis
    proof cases
      case leaf
      then have np: "\<not> prefix q p" by (simp add: prefix_def)
      have "view t5 q = view ?t q" using t5(2) [of q] np by simp
      also have "\<dots> = Some (credit ?v (fields n))" using vt [of q] leaf by simp
      finally show ?thesis using leaf n len by (simp add: rs view_def backed_def)
    next
      case inner
      then have np: "\<not> prefix (p @ [a]) q"
        by (auto dest!: prefix_length_le)
      from inner have lq: "length q \<le> length p" by (rule prefix_length_le)
      have "drop (length q) (rev rs) = drop (length q) (rev rs') @ [r]"
        using lq len by (simp add: rs)
      then have bk: "backed (gamma_i t) (drop (length q) (rev rs)) v
          = backed (gamma_i t) (drop (length q) (rev rs')) ?v"
        by (simp add: backed_snoc)
      have "view ?t q = view t q" using vt [of q] np by simp
      then show ?thesis using t5(2) [of q] inner g bk by (simp add: prefix_snoc)
    next
      case off
      then have np: "\<not> prefix q p" by (simp add: prefix_snoc)
      have "view t5 q = view ?t q" using t5(2) [of q] np by simp
      also have "\<dots> = view t q"
      proof (cases "prefix (p @ [a]) q")
        case True
        then obtain x where x: "q = (p @ [a]) @ x" by (auto simp: prefix_def)
        with off have xn: "x \<noteq> []" by auto
        have "view ?t q = view (updateStats ?v n) x" using vt [of q] x by simp
        also have "\<dots> = view n x" by (rule view_same_children [OF _ xn]) simp
        also have "\<dots> = view t q" using view_append [OF n, of x] x by simp
        finally show ?thesis .
      next
        case False
        then show ?thesis using vt [of q] by simp
      qed
      finally show ?thesis using off by simp
    qed
  qed
  show ?case using b v by simp
qed


lemma backup_invariant:
  "invariant N t \<Longrightarrow> backup t vis rs v = Inr t5 \<Longrightarrow> invariant N t5 \<and> count t5 = count t"
proof (induction vis arbitrary: t rs v)
  case Nil
  then show ?case by simp
next
  case (Cons p vis)
  from Cons.prems(2) obtain r rs' n where rs: "rs = r # rs'" and n: "deref t p = Some n"
    and b: "backup (update_at t p (updateStats (r + gamma_i t * v))) vis rs' (r + gamma_i t * v) = Inr t5"
    by (auto simp: Let_def split: list.splits if_splits option.splits)
  let ?t = "update_at t p (updateStats (r + gamma_i t * v))"
  have it: "invariant N ?t"
    by (rule invariant_update_at [OF Cons.prems(1) n]) (simp add: invariant_deref [OF Cons.prems(1) n])
  have ct: "count ?t = count t"
    using count_update_at [OF n, of "updateStats (r + gamma_i t * v)"] by simp
  from Cons.IH [OF it b] ct show ?case by simp
qed

lemma backup_ok:
  assumes "invariant N t" and "deref t p \<noteq> None" and "length rs = Suc (length p)"
  shows "\<exists>t5. backup t (rev (prefixes p)) rs v = Inr t5 \<and> invariant N t5 \<and> count t5 = count t \<and>
        (\<forall>q. view t5 q =
           (if prefix q p
            then map_option (credit (backed (gamma_i t) (drop (length q) (rev rs)) v)) (view t q)
            else view t q))"
proof -
  from backup_view [OF assms(2,3), of v]
  obtain t5 where b: "backup t (rev (prefixes p)) rs v = Inr t5"
    and v: "\<forall>q. view t5 q =
           (if prefix q p
            then map_option (credit (backed (gamma_i t) (drop (length q) (rev rs)) v)) (view t q)
            else view t q)" by blast
  from backup_invariant [OF assms(1) b] b v show ?thesis by blast
qed

lemma invariant_leaf:
  "invariant N n \<Longrightarrow> isLeaf_i n \<Longrightarrow> vpChildren_i n = replicate N Null"
  by (cases n) (auto intro!: replicate_eqI)

lemma invariant_default: "invariant (N_ACTIONS P) (UCTreeNode_default P)"
  by (simp add: UCTreeNode_default_def ctor_eq)

lemma count_leaf: "vpChildren_i n = replicate N Null \<Longrightarrow> count n = 1"
  by (cases n) (simp add: sum_list_replicate)

lemma deref_leaf: "vpChildren_i n = replicate N Null \<Longrightarrow> x \<noteq> [] \<Longrightarrow> deref n x = None"
  by (cases x) (simp_all add: fetch_def)

lemma expand_props:
  assumes "invariant (N_ACTIONS P) leaf" and "isLeaf_i leaf"
  shows "invariant (N_ACTIONS P) (expand P leaf)"
    and "count (expand P leaf) = 1 + int (N_ACTIONS P)"
    and "\<not> isLeaf_i (expand P leaf)"
    and "fields (expand P leaf) = (False, nVisits_i leaf, totValue_i leaf, gamma_i leaf)"
    and "view (expand P leaf) x =
          (case x of [] \<Rightarrow> Some (False, nVisits_i leaf, totValue_i leaf, gamma_i leaf)
           | [b] \<Rightarrow> if b < N_ACTIONS P then Some (True, 0, 0, DEFAULT_GAMMA) else None
           | _ \<Rightarrow> None)"
proof -
  have len: "length (vpChildren_i leaf) = N_ACTIONS P"
    using invariant_leaf [OF assms] by simp
  note e = expand_leaf [OF assms(2) len]
  have d: "count (UCTreeNode_default P) = 1"
    by (rule count_leaf [of _ "N_ACTIONS P"]) (simp add: UCTreeNode_default_def ctor_eq)
  show "invariant (N_ACTIONS P) (expand P leaf)"
    by (simp add: e invariant_default)
  show "count (expand P leaf) = 1 + int (N_ACTIONS P)"
    by (simp add: e d sum_list_replicate)
  show "\<not> isLeaf_i (expand P leaf)" by (simp add: e)
  show "fields (expand P leaf) = (False, nVisits_i leaf, totValue_i leaf, gamma_i leaf)"
    by (simp add: e fields_def)
  show "view (expand P leaf) x =
          (case x of [] \<Rightarrow> Some (False, nVisits_i leaf, totValue_i leaf, gamma_i leaf)
           | [b] \<Rightarrow> if b < N_ACTIONS P then Some (True, 0, 0, DEFAULT_GAMMA) else None
           | _ \<Rightarrow> None)"
  proof (cases x)
    case Nil
    then show ?thesis by (simp add: e fields_def)
  next
    case (Cons b x')
    have dd: "x' \<noteq> [] \<Longrightarrow> deref (UCTreeNode_default P) x' = None"
      by (rule deref_leaf [of _ "N_ACTIONS P"]) (simp_all add: UCTreeNode_default_def ctor_eq)
    show ?thesis
      using Cons dd
      by (cases x') (auto simp: e view_def fetch_def fields_def UCTreeNode_default_def ctor_eq)
  qed
qed

lemma view_expand:
  assumes d: "deref t p = Some leaf" and i: "invariant (N_ACTIONS P) leaf" and l: "isLeaf_i leaf"
  shows "view (update_at t p (expand P)) q = view_expanded (N_ACTIONS P) t p q"
proof (cases "prefix p q")
  case False
  then have "q \<noteq> p" "\<forall>b. q \<noteq> p @ [b]" by auto
  with False show ?thesis using view_update_at [OF d, of "expand P" q]
    by (simp add: view_expanded_def)
next
  case True
  then obtain x where x: "q = p @ x" by (auto simp: prefix_def)
  have v: "view (update_at t p (expand P)) q = view (expand P leaf) x"
    using view_update_at [OF d, of "expand P" q] x by simp
  have vl: "view t q = view leaf x" using view_append [OF d, of x] x by simp
  have ln: "x \<noteq> [] \<Longrightarrow> view leaf x = None"
    using deref_leaf [OF invariant_leaf [OF i l], of x] by (simp add: view_def)
  show ?thesis
  proof (cases x)
    case Nil
    have fl: "fields leaf = (True, nVisits_i leaf, totValue_i leaf, gamma_i leaf)"
      using l by (simp add: fields_def)
    from Nil show ?thesis using v vl x
      by (simp add: expand_props(4) [OF i l] view_expanded_def fl)
  next
    case (Cons b x')
    then show ?thesis using v vl ln x
      by (cases x') (auto simp: expand_props(5) [OF i l] view_expanded_def)
  qed
qed

lemma view_expanded_cong: "view t1 = view t \<Longrightarrow> view_expanded N t1 p = view_expanded N t p"
  by (rule ext) (auto simp: view_expanded_def)

lemma view_set_rand [simp]: "view (set_rand r t) = view t"
  by (rule ext) (rule view_same, simp_all)

lemma iterate_trace:
  assumes N: "0 < N_ACTIONS P" and inv: "invariant (N_ACTIONS P) t"
  shows "\<exists>t1 pLeaf visited rewards mdp1 w1 cur a cur' w2 curReward mdp2 w3 v t4 w4 t5.
     descend P t [] [[]] [0] mdp w = Inr (t1, pLeaf, visited, rewards, mdp1, w1) \<and>
     deref (update_at t1 pLeaf (expand P)) pLeaf = Some cur \<and>
     selectAction P cur w1 = Inr (a, cur', w2) \<and>
     mdp_call P mdp1 (int a) w2 = (curReward, mdp2, w3) \<and>
     rollOut P (update_at (update_at t1 pLeaf (expand P)) pLeaf (\<lambda>_. cur')) mdp2 w3 = (v, t4, w4) \<and>
     backup t4 ((pLeaf @ [a]) # visited) (curReward # rewards) v = Inr t5 \<and>
     iterate P t mdp w = Inr (t5, w4) \<and>
     visited = rev (prefixes pLeaf) \<and> length rewards = Suc (length pLeaf) \<and> last rewards = 0 \<and>
     gamma_i t4 = gamma_i t \<and>
     invariant (N_ACTIONS P) t5 \<and> count t5 = count t + int (N_ACTIONS P) \<and>
     (\<exists>leaf. deref t pLeaf = Some leaf \<and> isLeaf_i leaf) \<and> a < N_ACTIONS P \<and>
     (\<forall>q. view t5 q =
        (if prefix q (pLeaf @ [a])
         then map_option (credit (backed (gamma_i t) (drop (length q) (rev (curReward # rewards))) v))
                (view_expanded (N_ACTIONS P) t pLeaf q)
         else view_expanded (N_ACTIONS P) t pLeaf q))"
proof -
  have d0: "deref t [] \<noteq> None" by simp
  have D: "\<exists>t1 pLeaf vis1 rew1 m1 w1 leaf new.
        descend P t [] [[]] [0] mdp w = Inr (t1, pLeaf, vis1, rew1, m1, w1) \<and>
        invariant (N_ACTIONS P) t1 \<and> count t1 = count t \<and> view t1 = view t \<and>
        deref t1 pLeaf = Some leaf \<and> isLeaf_i leaf \<and>
        vis1 = rev (prefixes pLeaf) \<and> rew1 = new @ [0] \<and> length new = length pLeaf"
    using descend_ok [OF N inv d0, of "[[]]" "[0]" mdp w] by simp
  from D obtain t1 pLeaf vis1 rew1 m1 w1 leaf new where
    d: "descend P t [] [[]] [0] mdp w = Inr (t1, pLeaf, vis1, rew1, m1, w1)"
    and i1: "invariant (N_ACTIONS P) t1" and c1: "count t1 = count t" and v1: "view t1 = view t"
    and dl: "deref t1 pLeaf = Some leaf" and l: "isLeaf_i leaf"
    and vis1: "vis1 = rev (prefixes pLeaf)"
    and rew: "rew1 = new @ [0]" and len: "length new = length pLeaf"
    by (elim exE conjE) (rule that, assumption+)
  have il: "invariant (N_ACTIONS P) leaf" by (rule invariant_deref [OF i1 dl])
  note ep = expand_props [OF il l]
  let ?t2 = "update_at t1 pLeaf (expand P)"
  have i2: "invariant (N_ACTIONS P) ?t2" by (rule invariant_update_at [OF i1 dl]) (rule ep(1))
  have c2: "count ?t2 = count t + int (N_ACTIONS P)"
    using count_update_at [OF dl, of "expand P"] count_leaf [OF invariant_leaf [OF il l]] ep(2) c1
    by simp
  have v2: "view ?t2 = view_expanded (N_ACTIONS P) t pLeaf"
    using view_expand [OF dl il l] view_expanded_cong [OF v1] by (intro ext) simp
  have d2: "deref ?t2 pLeaf = Some (expand P leaf)"
    using deref_update_at [OF dl, of "expand P" "[]"] by simp
  from selectAction_ok [OF ep(3) N invariant_children [OF ep(1) ep(3)], of w1]
  obtain a r' w2 where sel: "selectAction P (expand P leaf) w1 = Inr (a, set_rand r' (expand P leaf), w2)"
    and a: "a < N_ACTIONS P" by blast
  let ?cur' = "set_rand r' (expand P leaf)"
  let ?t3 = "update_at ?t2 pLeaf (\<lambda>_. ?cur')"
  have i3: "invariant (N_ACTIONS P) ?t3"
    by (rule invariant_update_at [OF i2 d2]) (simp add: ep(1))
  have c3: "count ?t3 = count ?t2"
    using count_update_at [OF d2, of "\<lambda>_. ?cur'"] by simp
  have v3: "view ?t3 = view ?t2"
    by (rule view_update_at_same [OF d2]) simp_all
  obtain curReward mdp2 w3 where m: "mdp_call P m1 (int a) w2 = (curReward, mdp2, w3)"
    by (cases "mdp_call P m1 (int a) w2")
  from rollOut_same [of P ?t3 mdp2 w3]
  obtain v r'' w4 where ro: "rollOut P ?t3 mdp2 w3 = (v, set_rand r'' ?t3, w4)" by blast
  let ?t4 = "set_rand r'' ?t3"
  have i4: "invariant (N_ACTIONS P) ?t4" using i3 by simp
  have c4: "count ?t4 = count t + int (N_ACTIONS P)" using c3 c2 by simp
  have v4: "view ?t4 = view_expanded (N_ACTIONS P) t pLeaf" using v3 v2 by simp
  have "view ?t4 [] = view_expanded (N_ACTIONS P) t pLeaf []" by (simp only: v4)
  then have g4: "gamma_i ?t4 = gamma_i t"
    by (auto simp: view_expanded_def fields_def set_rand_def split: if_splits)
  have "view ?t4 (pLeaf @ [a]) = Some (True, 0, 0, DEFAULT_GAMMA)"
    using a by (simp only: v4) (auto simp: view_expanded_def)
  with view_None [of ?t4 "pLeaf @ [a]"] have d4: "deref ?t4 (pLeaf @ [a]) \<noteq> None"
    by (metis option.distinct(1))
  have len4: "length (curReward # rew1) = Suc (length (pLeaf @ [a]))"
    using rew len by simp
  from backup_ok [OF i4 d4 len4, of v]
  obtain t5 where b: "backup ?t4 (rev (prefixes (pLeaf @ [a]))) (curReward # rew1) v = Inr t5"
    and i5: "invariant (N_ACTIONS P) t5" and c5: "count t5 = count ?t4"
    and v5: "\<And>q. view t5 q =
           (if prefix q (pLeaf @ [a])
            then map_option (credit (backed (gamma_i ?t4) (drop (length q) (rev (curReward # rew1))) v)) (view ?t4 q)
            else view ?t4 q)" by blast
  let ?rs = "rev (curReward # rew1)"
  have it: "iterate P t mdp w = Inr (t5, w4)"
    using b by (simp add: iterate_def d d2 sel m ro vis1 prefixes_snoc)
  have b': "backup ?t4 ((pLeaf @ [a]) # vis1) (curReward # rew1) v = Inr t5"
    using b by (simp add: vis1 prefixes_snoc)
  have lrw: "length rew1 = Suc (length pLeaf)" using rew len by simp
  have lst: "last rew1 = 0" by (simp add: rew)
  have c5': "count t5 = count t + int (N_ACTIONS P)" using c5 c4 by simp
  have dleaf: "\<exists>leaf. deref t pLeaf = Some leaf \<and> isLeaf_i leaf"
  proof -
    have "view t pLeaf = Some (fields leaf)" using dl by (simp add: v1 [symmetric] view_def)
    then obtain n where "deref t pLeaf = Some n" "fields n = fields leaf" by (auto simp: view_def)
    with l show ?thesis by (auto simp: fields_def)
  qed
  from dleaf obtain leaf0 where dl0: "deref t pLeaf = Some leaf0" and l0: "isLeaf_i leaf0" by blast
  have vq: "\<forall>q. view t5 q =
        (if prefix q (pLeaf @ [a])
         then map_option (credit (backed (gamma_i t) (drop (length q) ?rs) v))
                (view_expanded (N_ACTIONS P) t pLeaf q)
         else view_expanded (N_ACTIONS P) t pLeaf q)"
    using v5 by (simp only: g4 v4) simp
  show ?thesis
    apply (intro exI conjI)
                   apply (rule d, rule d2, rule sel, rule m, rule ro, rule b', rule it, rule vis1)
           apply (rule lrw, rule lst, rule g4, rule i5, rule c5', rule dl0, rule l0, rule a, rule vq)
    done
qed

lemma iterate_effect:
  assumes N: "0 < N_ACTIONS P" and inv: "invariant (N_ACTIONS P) t"
  shows "\<exists>pLeaf a rs v t5 w'.
     iterate P t mdp w = Inr (t5, w') \<and> invariant (N_ACTIONS P) t5 \<and>
     count t5 = count t + int (N_ACTIONS P) \<and>
     (\<exists>leaf. deref t pLeaf = Some leaf \<and> isLeaf_i leaf) \<and> a < N_ACTIONS P \<and>
     length rs = length pLeaf + 2 \<and> hd rs = 0 \<and>
     (\<forall>q. view t5 q =
        (if prefix q (pLeaf @ [a])
         then map_option (credit (backed (gamma_i t) (drop (length q) rs) v))
                (view_expanded (N_ACTIONS P) t pLeaf q)
         else view_expanded (N_ACTIONS P) t pLeaf q))"
proof -
  from iterate_trace [OF assms, of mdp w]
  obtain pLeaf rewards a curReward v w4 t5 where
    it: "iterate P t mdp w = Inr (t5, w4)"
    and lrw: "length rewards = Suc (length pLeaf)" and lst: "last rewards = 0"
    and i5: "invariant (N_ACTIONS P) t5" and c5: "count t5 = count t + int (N_ACTIONS P)"
    and dleaf: "\<exists>leaf. deref t pLeaf = Some leaf \<and> isLeaf_i leaf" and a: "a < N_ACTIONS P"
    and vq: "\<forall>q. view t5 q =
        (if prefix q (pLeaf @ [a])
         then map_option (credit (backed (gamma_i t) (drop (length q) (rev (curReward # rewards))) v))
                (view_expanded (N_ACTIONS P) t pLeaf q)
         else view_expanded (N_ACTIONS P) t pLeaf q)"
    by (elim exE, elim conjE) (rule that, assumption+)
  let ?rs = "rev (curReward # rewards)"
  have ne: "rewards \<noteq> []" using lrw by auto
  have lrs: "length ?rs = length pLeaf + 2" using lrw by simp
  have hrs: "hd ?rs = 0" using ne lst by (simp add: hd_rev)
  show ?thesis
    apply (rule exI [of _ pLeaf], rule exI [of _ a], rule exI [of _ ?rs], rule exI [of _ v])
    apply (rule exI [of _ t5], rule exI [of _ w4])
    apply (intro conjI)
    apply (rule it, rule i5, rule c5, rule dleaf, rule a, rule lrs, rule hrs, rule vq)
    done
qed

subsection \<open>Node count\<close>

lemma invariant_ctor: "invariant (N_ACTIONS P) (UCTreeNode_ctor P g r)"
  by (simp add: ctor_eq)

lemma count_ctor: "count (UCTreeNode_ctor P g r) = 1"
  by (simp add: ctor_eq sum_list_replicate)

lemma iterate_n_count:
  "0 < N_ACTIONS P \<Longrightarrow> invariant (N_ACTIONS P) t \<Longrightarrow>
   \<exists>t' w'. iterate_n P k t mdp w = Inr (t', w') \<and> invariant (N_ACTIONS P) t' \<and>
      count t' = count t + int (N_ACTIONS P) * int k"
proof (induction k arbitrary: t w)
  case 0
  then show ?case by simp
next
  case (Suc k)
  from iterate_effect [OF Suc.prems, of mdp w]
  obtain t1 w1 where s: "iterate P t mdp w = Inr (t1, w1)" "invariant (N_ACTIONS P) t1"
    "count t1 = count t + int (N_ACTIONS P)" by blast
  from Suc.IH [OF Suc.prems(1) s(2), of w1]
  obtain t' w' where r: "iterate_n P k t1 mdp w1 = Inr (t', w')" "invariant (N_ACTIONS P) t'"
    "count t' = count t1 + int (N_ACTIONS P) * int k" by blast
  have "iterate_n P (Suc k) t mdp w = Inr (t', w')" by (simp add: s(1) r(1))
  moreover have "count t' = count t + int (N_ACTIONS P) * int (Suc k)"
    using r(3) s(3) by (simp add: algebra_simps)
  ultimately show ?case using r(2) by blast
qed

text \<open>
  Claim C1. For a positive number of actions (the array \<^verbatim>\<open>vpChildren_i[N_ACTIONS]\<close> admits
  no other), any random source, any reward generator and any \<open>k\<close>: \<open>k\<close> calls of
  \<^verbatim>\<open>iterate\<close> on a newly constructed node all return, and \<^verbatim>\<open>numOfNodes\<close> of the
  tree is then \<open>1 + N_ACTIONS * k\<close>.
\<close>

theorem numOfNodes_after_iterations:
  "0 < N_ACTIONS P \<Longrightarrow>
   \<exists>t w'. iterate_n P k (UCTreeNode_ctor P g r) mdp w = Inr (t, w') \<and>
      numOfNodes t = Inr (1 + int (N_ACTIONS P) * int k)"
proof -
  assume N: "0 < N_ACTIONS P"
  from iterate_n_count [OF N invariant_ctor, of k g r mdp w]
  obtain t w' where r: "iterate_n P k (UCTreeNode_ctor P g r) mdp w = Inr (t, w')"
    "invariant (N_ACTIONS P) t"
    "count t = count (UCTreeNode_ctor P g r) + int (N_ACTIONS P) * int k" by blast
  from numOfNodes_count [OF r(2)] r(3) have "numOfNodes t = Inr (1 + int (N_ACTIONS P) * int k)"
    by (simp add: count_ctor)
  with r(1) show ?thesis by blast
qed

theorem numOfNodes_after_iterations_witness:
  "\<exists>t w'. iterate_n env0 3 (UCTreeNode_ctor env0 (9 / 10) ()) () [] = Inr (t, w') \<and>
      numOfNodes t = Inr 7"
  using numOfNodes_after_iterations [of env0 3 "9 / 10" "()" "()" "[]"]
  by (simp add: env0_def)

subsection \<open>Backpropagation\<close>

lemma backed_Cons: "backed g (r # rs) v = r + g * backed g rs v"
  by (simp add: backed_def)

lemma backed_Nil: "backed g [] v = v"
  by (simp add: backed_def)

lemma backed_step:
  "i < length rs \<Longrightarrow> backed g (drop i rs) v = rs ! i + g * backed g (drop (Suc i) rs) v"
  by (simp add: Cons_nth_drop_Suc [symmetric] backed_Cons)

lemma backed_closed:
  "backed g rs v = (\<Sum>j < length rs. g ^ j * rs ! j) + g ^ length rs * v"
proof (induction rs)
  case Nil
  then show ?case by (simp add: backed_Nil)
next
  case (Cons r rs)
  have "(\<Sum>j < Suc (length rs). g ^ j * (r # rs) ! j)
      = g ^ 0 * (r # rs) ! 0 + (\<Sum>j < length rs. g ^ Suc j * (r # rs) ! Suc j)"
    by (rule sum.lessThan_Suc_shift)
  then have "(\<Sum>j < length (r # rs). g ^ j * (r # rs) ! j) = r + g * (\<Sum>j < length rs. g ^ j * rs ! j)"
    by (simp add: sum_distrib_left mult.assoc del: sum.lessThan_Suc)
  then show ?case by (simp add: backed_Cons Cons.IH algebra_simps)
qed

lemma view_Some:
  "view t q = Some f \<Longrightarrow>
   \<exists>n. deref t q = Some n \<and> isLeaf_i n = fst f \<and> nVisits_i n = fst (snd f) \<and>
       totValue_i n = fst (snd (snd f)) \<and> gamma_i n = snd (snd (snd f))"
  by (auto simp: view_def fields_def)

lemma view_expanded_inner:
  "deref t q = Some n \<Longrightarrow> length q \<le> length pLeaf \<Longrightarrow>
   \<exists>l. view_expanded N t pLeaf q = Some (l, nVisits_i n, totValue_i n, gamma_i n) \<and>
       (l \<longleftrightarrow> isLeaf_i n \<and> q \<noteq> pLeaf)"
  by (auto simp: view_expanded_def view_def fields_def)

lemma view_expanded_new:
  "a < N \<Longrightarrow> view_expanded N t pLeaf (pLeaf @ [a]) = Some (True, 0, 0, DEFAULT_GAMMA)"
  by (auto simp: view_expanded_def)

lemma backup_path:
  assumes d: "deref t p \<noteq> None" and len: "length rs = Suc (length p)"
  shows "\<exists>t5. backup t (rev (prefixes p)) rs v = Inr t5 \<and>
     (\<forall>i \<le> length p. \<exists>n n'.
         deref t (take i p) = Some n \<and> deref t5 (take i p) = Some n' \<and>
         nVisits_i n' = nVisits_i n + 1 \<and>
         totValue_i n' = totValue_i n + backed (gamma_i t) (drop i (rev rs)) v) \<and>
     (\<forall>q. \<not> prefix q p \<longrightarrow> view t5 q = view t q)"
proof -
  from backup_view [OF d len, of v]
  obtain t5 where b: "backup t (rev (prefixes p)) rs v = Inr t5"
    and vq: "\<And>q. view t5 q =
           (if prefix q p
            then map_option (credit (backed (gamma_i t) (drop (length q) (rev rs)) v)) (view t q)
            else view t q)" by blast
  have on: "\<exists>n n'. deref t (take i p) = Some n \<and> deref t5 (take i p) = Some n' \<and>
         nVisits_i n' = nVisits_i n + 1 \<and>
         totValue_i n' = totValue_i n + backed (gamma_i t) (drop i (rev rs)) v" if i: "i \<le> length p" for i
  proof -
    let ?q = "take i p"
    from i have lq: "length ?q = i" by simp
    have "deref t (?q @ drop i p) \<noteq> None" using d by simp
    then have "deref t ?q \<noteq> None" by (rule deref_prefix)
    then obtain n where n: "deref t ?q = Some n" by auto
    have "view t5 ?q = Some (credit (backed (gamma_i t) (drop i (rev rs)) v) (fields n))"
      using vq [of ?q] n lq by (simp add: take_is_prefix view_def)
    from view_Some [OF this] obtain n' where "deref t5 ?q = Some n'"
      "nVisits_i n' = nVisits_i n + 1" "totValue_i n' = totValue_i n + backed (gamma_i t) (drop i (rev rs)) v"
      by (auto simp: credit_def fields_def)
    with n show ?thesis by simp
  qed
  have off: "\<forall>q. \<not> prefix q p \<longrightarrow> view t5 q = view t q" using vq by simp
  from b on off show ?thesis by blast
qed

lemma backed_closed_drop:
  "i \<le> length rs \<Longrightarrow> backed g (drop i rs) v
         = (\<Sum>j < length rs - i. g ^ j * rs ! (i + j)) + g ^ (length rs - i) * v"
  using backed_closed [of g "drop i rs" v] by simp

lemma backup_step:
  "deref t p = Some n \<Longrightarrow> length vis = length rs \<Longrightarrow>
   backup t (p # vis) (r # rs) v
     = backup (update_at t p (updateStats (r + gamma_i t * v))) vis rs (r + gamma_i t * v)"
  by (simp add: Let_def)

lemma backup_assert:
  "length rews \<noteq> length (p # vis) \<Longrightarrow> backup t (p # vis) rews v = Inl AssertionFailed"
  by (cases rews) auto

lemma updateStats_fields:
  "nVisits_i (updateStats v n) = nVisits_i n + 1 \<and> totValue_i (updateStats v n) = totValue_i n + v"
  by (simp add: updateStats_def)

text \<open>
  Claim C2. A call of \<^verbatim>\<open>iterate\<close> on a tree that satisfies the structural invariant
  returns, and its phases are these. The selection loop \<^verbatim>\<open>descend\<close>, started with the
  root on the stack \<^verbatim>\<open>visited\<close> and the placeholder \<open>0\<close> on the stack
  \<^verbatim>\<open>rewards\<close>, stops at a leaf \<open>pLeaf\<close>; the leaf is expanded, \<^verbatim>\<open>selectAction\<close>
  gives \<open>action\<close>, the reward generator gives \<open>curReward\<close> for it, and \<^verbatim>\<open>rollOut\<close>
  gives the estimate \<open>v\<close>. The unwinding loop \<^verbatim>\<open>backup\<close> then runs on the two stacks
  with \<open>path = pLeaf @ [action]\<close> and \<open>curReward\<close> pushed, and on \<open>v\<close>; the stacks
  have the same size, the visited stack holds the prefixes of \<open>path\<close>, the longest on top, and
  \<open>rs\<close> is the reward stack read from the root, whose first element is the placeholder.
  Every node that was on the path before the call has one visit more and its total increased by
  the value backed up to it; the new leaf has one visit and \<open>curReward + gamma_i * v\<close> as
  its total. The value backed up to a node is its reward plus \<^verbatim>\<open>gamma_i\<close> of the root
  times the value backed up to the next node of the path, starting from \<open>v\<close>; so the node at
  depth \<open>i\<close> receives the rewards below it and \<open>v\<close> discounted by the powers of
  \<^verbatim>\<open>gamma_i\<close>, the highest power at the root.

  The last four conjuncts are about the unwinding loop on any tree, any stacks and any value:
  one step of the loop on stacks of equal size recomputes the value as the popped reward plus
  \<^verbatim>\<open>gamma_i\<close> times the value, calls \<^verbatim>\<open>updateStats\<close> with it on the popped node
  and goes on with the new value; \<^verbatim>\<open>updateStats\<close> adds one visit and adds the value to the
  total; on stacks of different sizes the assertion fails; and the whole loop on the prefixes of a
  path \<open>p\<close> of the tree returns, updates each node of \<open>p\<close> once, with the value backed
  up to it, and leaves the members of the other nodes as they were.
\<close>

theorem iterate_backpropagation:
  fixes t :: "'r UCTreeNode"
  assumes "0 < N_ACTIONS P" and "invariant (N_ACTIONS P) t"
  shows "\<exists>t1 pLeaf visited rewards mdp1 w1 cur action cur' w2 curReward mdp2 w3 v t4 w4 t' path rs.
     descend P t [] [[]] [0] mdp w = Inr (t1, pLeaf, visited, rewards, mdp1, w1) \<and>
     deref (update_at t1 pLeaf (expand P)) pLeaf = Some cur \<and>
     selectAction P cur w1 = Inr (action, cur', w2) \<and>
     mdp_call P mdp1 (int action) w2 = (curReward, mdp2, w3) \<and>
     rollOut P (update_at (update_at t1 pLeaf (expand P)) pLeaf (\<lambda>_. cur')) mdp2 w3 = (v, t4, w4) \<and>
     backup t4 (path # visited) (curReward # rewards) v = Inr t' \<and>
     iterate P t mdp w = Inr (t', w4) \<and>
     path = pLeaf @ [action] \<and> rs = rev (curReward # rewards) \<and>
     path # visited = rev (prefixes path) \<and>
     length (curReward # rewards) = length (path # visited) \<and>
     length rs = length path + 1 \<and> hd rs = 0 \<and> gamma_i t4 = gamma_i t \<and>
     (\<forall>i < length path. \<exists>n n'.
         deref t (take i path) = Some n \<and> deref t' (take i path) = Some n' \<and>
         nVisits_i n' = nVisits_i n + 1 \<and>
         totValue_i n' = totValue_i n + backed (gamma_i t) (drop i rs) v) \<and>
     deref t path = None \<and>
     (\<exists>n'. deref t' path = Some n' \<and> nVisits_i n' = 1 \<and>
         totValue_i n' = backed (gamma_i t) (drop (length path) rs) v \<and>
         totValue_i n' = curReward + gamma_i t * v) \<and>
     (\<forall>i < length rs. backed (gamma_i t) (drop i rs) v
         = rs ! i + gamma_i t * backed (gamma_i t) (drop (Suc i) rs) v) \<and>
     backed (gamma_i t) (drop (length rs) rs) v = v \<and>
     (\<forall>i \<le> length rs. backed (gamma_i t) (drop i rs) v
         = (\<Sum>j < length rs - i. gamma_i t ^ j * rs ! (i + j)) + gamma_i t ^ (length rs - i) * v) \<and>
     (\<forall>(t0 :: 'r UCTreeNode) p vis r rs0 x n.
         deref t0 p = Some n \<and> length vis = length rs0 \<longrightarrow>
         backup t0 (p # vis) (r # rs0) x
           = backup (update_at t0 p (updateStats (r + gamma_i t0 * x))) vis rs0 (r + gamma_i t0 * x)) \<and>
     (\<forall>(n :: 'r UCTreeNode) x.
         nVisits_i (updateStats x n) = nVisits_i n + 1 \<and>
         totValue_i (updateStats x n) = totValue_i n + x) \<and>
     (\<forall>(t0 :: 'r UCTreeNode) p vis rews x.
         length rews \<noteq> length (p # vis) \<longrightarrow> backup t0 (p # vis) rews x = Inl AssertionFailed) \<and>
     (\<forall>(t0 :: 'r UCTreeNode) p rs0 x.
         deref t0 p \<noteq> None \<and> length rs0 = Suc (length p) \<longrightarrow>
         (\<exists>t5. backup t0 (rev (prefixes p)) rs0 x = Inr t5 \<and>
            (\<forall>i \<le> length p. \<exists>n n'.
                deref t0 (take i p) = Some n \<and> deref t5 (take i p) = Some n' \<and>
                nVisits_i n' = nVisits_i n + 1 \<and>
                totValue_i n' = totValue_i n + backed (gamma_i t0) (drop i (rev rs0)) x) \<and>
            (\<forall>q. \<not> prefix q p \<longrightarrow> view t5 q = view t0 q)))"
proof -
  from iterate_trace [OF assms, of mdp w]
  obtain t1 pLeaf visited rewards mdp1 w1 cur a cur' w2 curReward mdp2 w3 v t4 w4 t5 where
    d: "descend P t [] [[]] [0] mdp w = Inr (t1, pLeaf, visited, rewards, mdp1, w1)"
    and d2: "deref (update_at t1 pLeaf (expand P)) pLeaf = Some cur"
    and sel: "selectAction P cur w1 = Inr (a, cur', w2)"
    and m: "mdp_call P mdp1 (int a) w2 = (curReward, mdp2, w3)"
    and ro: "rollOut P (update_at (update_at t1 pLeaf (expand P)) pLeaf (\<lambda>_. cur')) mdp2 w3 = (v, t4, w4)"
    and b: "backup t4 ((pLeaf @ [a]) # visited) (curReward # rewards) v = Inr t5"
    and it: "iterate P t mdp w = Inr (t5, w4)"
    and vis: "visited = rev (prefixes pLeaf)"
    and lrw: "length rewards = Suc (length pLeaf)" and lst: "last rewards = 0"
    and g4: "gamma_i t4 = gamma_i t"
    and dleaf: "\<exists>leaf. deref t pLeaf = Some leaf \<and> isLeaf_i leaf" and a: "a < N_ACTIONS P"
    and vq': "\<forall>q. view t5 q =
        (if prefix q (pLeaf @ [a])
         then map_option (credit (backed (gamma_i t) (drop (length q) (rev (curReward # rewards))) v))
                (view_expanded (N_ACTIONS P) t pLeaf q)
         else view_expanded (N_ACTIONS P) t pLeaf q)"
    by (elim exE, elim conjE) (rule that, assumption+)
  from dleaf obtain leaf where dl: "deref t pLeaf = Some leaf" and l: "isLeaf_i leaf" by blast
  let ?path = "pLeaf @ [a]"
  let ?rs = "rev (curReward # rewards)"
  let ?g = "gamma_i t"
  note vq = vq' [rule_format]
  have ne: "rewards \<noteq> []" using lrw by auto
  have pv: "?path # visited = rev (prefixes ?path)" by (simp add: vis prefixes_snoc)
  have ll: "length (curReward # rewards) = length (?path # visited)" by (simp add: vis lrw)
  have lrs: "length ?rs = length ?path + 1" using lrw by simp
  have hrs: "hd ?rs = 0" using ne lst by (simp add: hd_rev)
  have inner: "\<exists>n n'. deref t (take i ?path) = Some n \<and> deref t5 (take i ?path) = Some n' \<and>
         nVisits_i n' = nVisits_i n + 1 \<and>
         totValue_i n' = totValue_i n + backed ?g (drop i ?rs) v" if i: "i < length ?path" for i
  proof -
    let ?q = "take i pLeaf"
    from i have q: "take i ?path = ?q" and lq: "length ?q = i" by simp_all
    have "deref t (?q @ drop i pLeaf) \<noteq> None" using dl by simp
    then have "deref t ?q \<noteq> None" by (rule deref_prefix)
    then obtain n where n: "deref t ?q = Some n" by auto
    from view_expanded_inner [OF n, of pLeaf "N_ACTIONS P"]
    obtain l' where ve: "view_expanded (N_ACTIONS P) t pLeaf ?q = Some (l', nVisits_i n, totValue_i n, gamma_i n)"
      by auto
    have "prefix ?q ?path" by (simp add: take_is_prefix prefix_prefix)
    then have "view t5 ?q = Some (credit (backed ?g (drop i ?rs) v) (l', nVisits_i n, totValue_i n, gamma_i n))"
      using vq [of ?q] ve lq by simp
    from view_Some [OF this] obtain n' where "deref t5 ?q = Some n'"
      "nVisits_i n' = nVisits_i n + 1" "totValue_i n' = totValue_i n + backed ?g (drop i ?rs) v"
      by (auto simp: credit_def)
    with n q show ?thesis by simp
  qed
  have old: "deref t ?path = None"
    using deref_append [OF dl, of "[a]"] deref_leaf [of leaf _ "[a]"] l dl
      invariant_leaf [OF invariant_deref [OF assms(2) dl] l] by simp
  have "view t5 ?path = Some (credit (backed ?g (drop (length ?path) ?rs) v) (True, 0, 0, DEFAULT_GAMMA))"
    using vq [of ?path] view_expanded_new [OF a, of t pLeaf] by simp
  from view_Some [OF this]
  obtain n' where n1: "deref t5 ?path = Some n'" and n2: "nVisits_i n' = 1"
    and n3: "totValue_i n' = backed ?g (drop (length ?path) ?rs) v"
    by (auto simp: credit_def)
  have "drop (length ?path) ?rs = [curReward]" using lrw by simp
  then have n4: "totValue_i n' = curReward + ?g * v" using n3 by (simp add: backed_Cons backed_Nil)
  have step: "\<forall>i < length ?rs. backed ?g (drop i ?rs) v
         = ?rs ! i + ?g * backed ?g (drop (Suc i) ?rs) v"
    by (intro allI impI) (erule backed_step)
  have fin: "backed ?g (drop (length ?rs) ?rs) v = v" by (simp add: backed_Nil)
  have closed: "\<forall>i \<le> length ?rs. backed ?g (drop i ?rs) v
         = (\<Sum>j < length ?rs - i. ?g ^ j * ?rs ! (i + j)) + ?g ^ (length ?rs - i) * v"
    by (intro allI impI) (erule backed_closed_drop)
  have inner': "\<forall>i < length ?path. \<exists>n n'. deref t (take i ?path) = Some n \<and> deref t5 (take i ?path) = Some n' \<and>
         nVisits_i n' = nVisits_i n + 1 \<and>
         totValue_i n' = totValue_i n + backed ?g (drop i ?rs) v"
    using inner by blast
  have u1: "\<forall>(t0 :: 'r UCTreeNode) p vis r rs0 x n.
         deref t0 p = Some n \<and> length vis = length rs0 \<longrightarrow>
         backup t0 (p # vis) (r # rs0) x
           = backup (update_at t0 p (updateStats (r + gamma_i t0 * x))) vis rs0 (r + gamma_i t0 * x)"
    by (intro allI impI, elim conjE) (rule backup_step)
  have u2: "\<forall>(n :: 'r UCTreeNode) x.
         nVisits_i (updateStats x n) = nVisits_i n + 1 \<and>
         totValue_i (updateStats x n) = totValue_i n + x"
    by (intro allI) (rule updateStats_fields)
  have u3: "\<forall>(t0 :: 'r UCTreeNode) p vis rews x.
         length rews \<noteq> length (p # vis) \<longrightarrow> backup t0 (p # vis) rews x = Inl AssertionFailed"
    by (intro allI impI) (rule backup_assert)
  have u4: "\<forall>(t0 :: 'r UCTreeNode) p rs0 x.
         deref t0 p \<noteq> None \<and> length rs0 = Suc (length p) \<longrightarrow>
         (\<exists>t5. backup t0 (rev (prefixes p)) rs0 x = Inr t5 \<and>
            (\<forall>i \<le> length p. \<exists>n n'.
                deref t0 (take i p) = Some n \<and> deref t5 (take i p) = Some n' \<and>
                nVisits_i n' = nVisits_i n + 1 \<and>
                totValue_i n' = totValue_i n + backed (gamma_i t0) (drop i (rev rs0)) x) \<and>
            (\<forall>q. \<not> prefix q p \<longrightarrow> view t5 q = view t0 q))"
    by (intro allI impI, elim conjE) (rule backup_path)
  have new: "\<exists>n'. deref t5 ?path = Some n' \<and> nVisits_i n' = 1 \<and>
         totValue_i n' = backed (gamma_i t) (drop (length ?path) ?rs) v \<and>
         totValue_i n' = curReward + gamma_i t * v"
    using n1 n2 n3 n4 by blast
  show ?thesis
    apply (rule exI [of _ t1], rule exI [of _ pLeaf], rule exI [of _ visited], rule exI [of _ rewards])
    apply (rule exI [of _ mdp1], rule exI [of _ w1], rule exI [of _ cur], rule exI [of _ a])
    apply (rule exI [of _ cur'], rule exI [of _ w2], rule exI [of _ curReward], rule exI [of _ mdp2])
    apply (rule exI [of _ w3], rule exI [of _ v], rule exI [of _ t4], rule exI [of _ w4])
    apply (rule exI [of _ t5], rule exI [of _ ?path], rule exI [of _ ?rs])
    apply (intro conjI)
    apply (rule d, rule d2, rule sel, rule m, rule ro, rule b, rule it, rule refl, rule refl)
    apply (rule pv, rule ll, rule lrs, rule hrs, rule g4, rule inner', rule old, rule new)
    apply (rule step, rule fin, rule closed, rule u1, rule u2, rule u3, rule u4)
    done
qed


text \<open>
  An instance with non-zero rewards: the root has discount factor \<open>1 / 2\<close>, the reward of
  the selected action is 1 and the rollout estimate is 1, so the new leaf receives
  \<open>1 + 1 / 2 * 1\<close> and the root \<open>0 + 1 / 2 * (3 / 2)\<close>.
\<close>

theorem iterate_backpropagation_witness:
  "\<exists>t' w'. iterate env1 (UCTreeNode_ctor env1 (1 / 2) ()) 0 [] = Inr (t', w') \<and>
     mdp_call env1 0 1 [] = (1, 1, []) \<and>
     (\<exists>n'. deref t' [] = Some n' \<and> nVisits_i n' = 1 \<and> totValue_i n' = 3 / 4) \<and>
     (\<exists>n'. deref t' [1] = Some n' \<and> nVisits_i n' = 1 \<and> totValue_i n' = 3 / 2)"
proof -
  let ?l = "UCTreeNode [Null, Null] True 0 0 (1 / 2) () :: unit UCTreeNode"
  let ?e = "UCTreeNode [Ptr (UCTreeNode [Null, Null] True 0 0 (9 / 10) ()),
                   Ptr (UCTreeNode [Null, Null] True 0 0 (9 / 10) ())] False 0 0 (1 / 2) () :: unit UCTreeNode"
  note ph = env1_phases
  have h: "0 < N_ACTIONS env1" "invariant (N_ACTIONS env1) ?l"
    using invariant_ctor [of env1 "1 / 2" "()"] by (simp_all add: ph(1) env1_def)
  from iterate_backpropagation [OF h, of 0 "[]"]
  obtain t1 pLeaf visited rewards mdp1 w1 cur action cur' w2 curReward mdp2 w3 v t4 w4 t' path rs where
    d: "descend env1 ?l [] [[]] [0] 0 [] = Inr (t1, pLeaf, visited, rewards, mdp1, w1)"
    and d2: "deref (update_at t1 pLeaf (expand env1)) pLeaf = Some cur"
    and sel: "selectAction env1 cur w1 = Inr (action, cur', w2)"
    and m: "mdp_call env1 mdp1 (int action) w2 = (curReward, mdp2, w3)"
    and ro: "rollOut env1 (update_at (update_at t1 pLeaf (expand env1)) pLeaf (\<lambda>_. cur')) mdp2 w3 = (v, t4, w4)"
    and it: "iterate env1 ?l 0 [] = Inr (t', w4)"
    and path: "path = pLeaf @ [action]" and rs: "rs = rev (curReward # rewards)"
    and inner: "\<forall>i < length path. \<exists>n n'.
         deref ?l (take i path) = Some n \<and> deref t' (take i path) = Some n' \<and>
         nVisits_i n' = nVisits_i n + 1 \<and>
         totValue_i n' = totValue_i n + backed (gamma_i ?l) (drop i rs) v"
    and new: "\<exists>n'. deref t' path = Some n' \<and> nVisits_i n' = 1 \<and>
         totValue_i n' = backed (gamma_i ?l) (drop (length path) rs) v \<and>
         totValue_i n' = curReward + gamma_i ?l * v"
    by (elim exE, elim conjE) (rule that, assumption+)
  from d have e1: "t1 = ?l" "pLeaf = []" "rewards = [0]" "mdp1 = 0" "w1 = []"
    by (simp_all add: ph(2))
  from d2 have e2: "cur = ?e" by (simp add: e1 ph(3))
  from sel have e3: "action = 1" "cur' = ?e" "w2 = []" by (simp_all add: e1 e2 ph(4))
  from m have e4: "curReward = 1" "mdp2 = Suc 0" "w3 = []" using ph(5) by (simp_all add: e1 e3)
  from ro have e5: "v = 1" by (simp add: e4 env1_rollOut)
  have p: "path = [1]" "rs = [0, 1]" by (simp_all add: path rs e1 e3 e4)
  from inner have "\<exists>n n'.
         deref ?l (take 0 path) = Some n \<and> deref t' (take 0 path) = Some n' \<and>
         nVisits_i n' = nVisits_i n + 1 \<and>
         totValue_i n' = totValue_i n + backed (gamma_i ?l) (drop 0 rs) v"
    by (rule allE [of _ 0]) (simp add: p)
  then have r: "\<exists>n'. deref t' [] = Some n' \<and> nVisits_i n' = 1 \<and> totValue_i n' = 3 / 4"
    by (simp add: p e5 backed_def)
  from new have n: "\<exists>n'. deref t' [1] = Some n' \<and> nVisits_i n' = 1 \<and> totValue_i n' = 3 / 2"
    by (auto simp: p e4 e5)
  have mc: "mdp_call env1 0 1 [] = (1, 1, [])" using ph(5) by simp
  from it r n mc show ?thesis by (simp add: ph(1))
qed

subsection \<open>What one iteration leaves alone\<close>


lemma view_fields: "deref t q = Some n \<Longrightarrow> view t q = Some (fields n)"
  by (simp add: view_def)



subsection \<open>The discount factor of the nodes\<close>

lemma credit_gamma:
  "map_option (credit x) opt = Some f \<Longrightarrow>
   \<exists>l nv tv. opt = Some (l, nv, tv, snd (snd (snd f)))"
  by (cases opt) (auto simp: credit_def)

lemma iterate_gamma:
  assumes N: "0 < N_ACTIONS P" and inv: "invariant (N_ACTIONS P) t"
    and dg: "\<forall>q n. q \<noteq> [] \<longrightarrow> deref t q = Some n \<longrightarrow> gamma_i n = DEFAULT_GAMMA"
  shows "\<exists>t' w'. iterate P t mdp w = Inr (t', w') \<and> invariant (N_ACTIONS P) t' \<and>
      gamma_i t' = gamma_i t \<and>
      (\<forall>q n. q \<noteq> [] \<longrightarrow> deref t' q = Some n \<longrightarrow> gamma_i n = DEFAULT_GAMMA)"
proof -
  from iterate_effect [OF N inv, of mdp w]
  obtain pLeaf a rs v t5 w' where
    it: "iterate P t mdp w = Inr (t5, w')" and i5: "invariant (N_ACTIONS P) t5"
    and vq: "\<And>q. view t5 q =
        (if prefix q (pLeaf @ [a])
         then map_option (credit (backed (gamma_i t) (drop (length q) rs) v))
                (view_expanded (N_ACTIONS P) t pLeaf q)
         else view_expanded (N_ACTIONS P) t pLeaf q)"
    by blast
  have ve: "\<exists>l nv tv. view_expanded (N_ACTIONS P) t pLeaf q = Some (l, nv, tv, gamma_i n')
        \<and> (q \<noteq> [] \<longrightarrow> gamma_i n' = DEFAULT_GAMMA) \<and> (q = [] \<longrightarrow> gamma_i n' = gamma_i t)"
    if "deref t5 q = Some n'" for q n'
  proof -
    from that have v5: "view t5 q = Some (fields n')" by (rule view_fields)
    have g: "snd (snd (snd (fields n'))) = gamma_i n'" by (simp add: fields_def)
    have "\<exists>l nv tv. view_expanded (N_ACTIONS P) t pLeaf q = Some (l, nv, tv, gamma_i n')"
    proof (cases "prefix q (pLeaf @ [a])")
      case True
      with vq [of q] v5
      have "map_option (credit (backed (gamma_i t) (drop (length q) rs) v))
          (view_expanded (N_ACTIONS P) t pLeaf q) = Some (fields n')" by simp
      from credit_gamma [OF this] show ?thesis by (simp only: g)
    next
      case False
      with vq [of q] v5 have "view_expanded (N_ACTIONS P) t pLeaf q = Some (fields n')" by simp
      then show ?thesis by (simp add: fields_def)
    qed
    then obtain l nv tv where e: "view_expanded (N_ACTIONS P) t pLeaf q = Some (l, nv, tv, gamma_i n')"
      by blast
    have "q \<noteq> [] \<Longrightarrow> gamma_i n' = DEFAULT_GAMMA"
      using e dg by (auto simp: view_expanded_def view_def fields_def split: if_splits)
    moreover have "q = [] \<Longrightarrow> gamma_i n' = gamma_i t"
      using e by (auto simp: view_expanded_def view_def fields_def split: if_splits)
    ultimately show ?thesis using e by blast
  qed
  have "gamma_i t5 = gamma_i t" using ve [of "[]" t5] by simp
  moreover have "\<forall>q n. q \<noteq> [] \<longrightarrow> deref t5 q = Some n \<longrightarrow> gamma_i n = DEFAULT_GAMMA"
    using ve by blast
  ultimately show ?thesis using it i5 by blast
qed

lemma iterate_n_gamma:
  "0 < N_ACTIONS P \<Longrightarrow> invariant (N_ACTIONS P) t \<Longrightarrow>
   \<forall>q n. q \<noteq> [] \<longrightarrow> deref t q = Some n \<longrightarrow> gamma_i n = DEFAULT_GAMMA \<Longrightarrow>
   \<exists>t' w'. iterate_n P k t mdp w = Inr (t', w') \<and> gamma_i t' = gamma_i t \<and>
      (\<forall>q n. q \<noteq> [] \<longrightarrow> deref t' q = Some n \<longrightarrow> gamma_i n = DEFAULT_GAMMA)"
proof (induction k arbitrary: t w)
  case 0
  then show ?case by simp
next
  case (Suc k)
  from iterate_gamma [OF Suc.prems, of mdp w]
  obtain t1 w1 where s: "iterate P t mdp w = Inr (t1, w1)" "invariant (N_ACTIONS P) t1"
    "gamma_i t1 = gamma_i t"
    "\<forall>q n. q \<noteq> [] \<longrightarrow> deref t1 q = Some n \<longrightarrow> gamma_i n = DEFAULT_GAMMA"
    by (elim exE, elim conjE) (rule that, assumption+)
  from Suc.IH [OF Suc.prems(1) s(2) s(4), of w1]
  obtain t' w' where r: "iterate_n P k t1 mdp w1 = Inr (t', w')" "gamma_i t' = gamma_i t1"
    "\<forall>q n. q \<noteq> [] \<longrightarrow> deref t' q = Some n \<longrightarrow> gamma_i n = DEFAULT_GAMMA"
    by (elim exE, elim conjE) (rule that, assumption+)
  have "iterate_n P (Suc k) t mdp w = Inr (t', w')" by (simp add: s(1) r(1))
  with r(2,3) s(3) show ?case by simp
qed

text \<open>
  Claim C3, as the code has it. \<^verbatim>\<open>expand\<close> on a leaf builds every child with
  \<^verbatim>\<open>new UCTreeNode()\<close>: the child is a leaf with the default discount factor
  \<open>0.9\<close> and a default-constructed random source, whatever the members of the expanding node
  are, and the discount factor of the expanding node is left as it was. After any number of
  calls of \<^verbatim>\<open>iterate\<close> on a newly constructed root the root still has the discount
  factor it was constructed with and every other node has \<open>0.9\<close>.
\<close>

theorem descendants_have_default_gamma:
  "(isLeaf_i this \<and> length (vpChildren_i this) = N_ACTIONS P \<longrightarrow>
      (\<forall>k < N_ACTIONS P. \<exists>c. fetch (vpChildren_i (expand P this)) k = Ptr c \<and> isLeaf_i c \<and>
          gamma_i c = DEFAULT_GAMMA \<and> rand_i c = URand_new P) \<and>
      gamma_i (expand P this) = gamma_i this) \<and>
   (0 < N_ACTIONS P \<longrightarrow>
      (\<exists>t w'. iterate_n P k (UCTreeNode_ctor P g r) mdp w = Inr (t, w') \<and> gamma_i t = g \<and>
          (\<forall>q n. q \<noteq> [] \<longrightarrow> deref t q = Some n \<longrightarrow> gamma_i n = DEFAULT_GAMMA))) \<and>
   DEFAULT_GAMMA = 9 / 10"
proof (intro conjI impI)
  assume a: "isLeaf_i this \<and> length (vpChildren_i this) = N_ACTIONS P"
  then have e: "expand P this = UCTreeNode (replicate (N_ACTIONS P) (Ptr (UCTreeNode_default P)))
      False (nVisits_i this) (totValue_i this) (gamma_i this) (rand_i this)"
    by (simp add: expand_leaf)
  show "\<forall>k < N_ACTIONS P. \<exists>c. fetch (vpChildren_i (expand P this)) k = Ptr c \<and> isLeaf_i c \<and>
          gamma_i c = DEFAULT_GAMMA \<and> rand_i c = URand_new P"
    by (simp add: e fetch_def UCTreeNode_default_def ctor_eq)
  show "gamma_i (expand P this) = gamma_i this" by (simp add: e)
next
  assume N: "0 < N_ACTIONS P"
  have d: "\<forall>q n. q \<noteq> [] \<longrightarrow> deref (UCTreeNode_ctor P g r) q = Some n \<longrightarrow> gamma_i n = DEFAULT_GAMMA"
    using deref_leaf [of "UCTreeNode_ctor P g r" "N_ACTIONS P"] by (simp add: ctor_eq)
  from iterate_n_gamma [OF N invariant_ctor d, of k mdp w]
  show "\<exists>t w'. iterate_n P k (UCTreeNode_ctor P g r) mdp w = Inr (t, w') \<and> gamma_i t = g \<and>
          (\<forall>q n. q \<noteq> [] \<longrightarrow> deref t q = Some n \<longrightarrow> gamma_i n = DEFAULT_GAMMA)"
    by (simp add: ctor_eq)
next
  show "DEFAULT_GAMMA = 9 / 10" by (simp add: DEFAULT_GAMMA_def)
qed

theorem descendants_have_default_gamma_witness:
  "(\<exists>c. fetch (vpChildren_i (expand env0 (UCTreeNode_ctor env0 (1 / 2) ()))) 1 = Ptr c \<and> isLeaf_i c \<and>
          gamma_i c = 9 / 10 \<and> rand_i c = ()) \<and>
   gamma_i (expand env0 (UCTreeNode_ctor env0 (1 / 2) ())) = 1 / 2 \<and>
   (\<exists>t w'. iterate_n env0 2 (UCTreeNode_ctor env0 (1 / 2) ()) () [] = Inr (t, w') \<and> gamma_i t = 1 / 2)"
proof -
  let ?t = "UCTreeNode_ctor env0 (1 / 2) ()"
  have l: "isLeaf_i ?t \<and> length (vpChildren_i ?t) = N_ACTIONS env0" by (simp add: ctor_eq)
  have n: "0 < N_ACTIONS env0" "(1::nat) < N_ACTIONS env0" by (simp_all add: env0_def)
  have g: "gamma_i ?t = 1 / 2" by (simp add: ctor_eq)
  note T = descendants_have_default_gamma [of ?t env0 2 "1 / 2" "()" "()" "[]"]
  from T l n(2) have 0: "\<exists>c. fetch (vpChildren_i (expand env0 ?t)) 1 = Ptr c \<and> isLeaf_i c \<and>
          gamma_i c = DEFAULT_GAMMA \<and> rand_i c = ()" by simp
  from T have dg: "DEFAULT_GAMMA = 9 / 10" by blast
  from 0 have 1: "\<exists>c. fetch (vpChildren_i (expand env0 ?t)) 1 = Ptr c \<and> isLeaf_i c \<and>
          gamma_i c = 9 / 10 \<and> rand_i c = ()" unfolding dg .
  from T l g have 2: "gamma_i (expand env0 ?t) = 1 / 2" by simp
  from T n(1) have 3: "\<exists>t w'. iterate_n env0 2 ?t () [] = Inr (t, w') \<and> gamma_i t = 1 / 2"
    by blast
  from 1 2 3 show ?thesis by (intro conjI)
qed

text \<open>
  The claim as stated fails: a root constructed with the discount factor \<open>0.5\<close> has, after one
  call of \<^verbatim>\<open>iterate\<close> (and after \<^verbatim>\<open>expand\<close> alone), children with the discount factor
  \<open>0.9\<close>.
\<close>

theorem children_gamma_counterexample:
  "gamma_i (UCTreeNode_ctor env0 (1 / 2) ()) = 1 / 2 \<and>
   iterate env0 (UCTreeNode_ctor env0 (1 / 2) ()) () []
     = Inr (UCTreeNode [Ptr (UCTreeNode [Null, Null] True 0 0 (9 / 10) ()),
                        Ptr (UCTreeNode [Null, Null] True 1 0 (9 / 10) ())] False 1 0 (1 / 2) (), []) \<and>
   map_option gamma_i
     (deref (UCTreeNode [Ptr (UCTreeNode [Null, Null] True 0 0 (9 / 10) ()),
                         Ptr (UCTreeNode [Null, Null] True 1 0 (9 / 10) ())] False 1 0 (1 / 2) ()) [1])
     = Some (9 / 10) \<and>
   map_option gamma_i (deref (expand env0 (UCTreeNode_ctor env0 (1 / 2) ())) [0]) = Some (9 / 10) \<and>
   map_option gamma_i (deref (expand env0 (UCTreeNode_ctor env0 (1 / 2) ())) [0])
     \<noteq> Some (gamma_i (UCTreeNode_ctor env0 (1 / 2) ()))"
  unfolding env0_expanded env0_iterate by (simp add: ctor_eq fetch_def)

subsection \<open>The selection rule\<close>

lemma scan_last_greatest:
  assumes "ss \<noteq> []" and "\<forall>s \<in> set ss. best \<le> s"
  shows "last_greatest ss (scan ss 0 sel best)"
  using scan_spec [of ss best 0 sel] assms
  by (cases ss) (auto simp: not_less [symmetric] simp del: not_less)

text \<open>
  Claim C4. On a leaf \<^verbatim>\<open>selectAction\<close> ends in a failed assertion. On an internal node
  with all children present (visit counts not negative, scores within the range of a double) it
  returns: the random source is called once per child, in index order; the score of child
  \<open>j\<close> is \<open>totValue / (nVisits + eps) + sqrt (ln (parent's nVisits + 1) / (nVisits + eps))\<close>
  plus the \<open>j\<close>-th result of the random source times \<open>eps\<close>, with \<open>eps = 1e-6\<close>; and the index
  returned has the greatest score, and every later index a strictly smaller one.
\<close>

theorem selectAction_rule:
  fixes this :: "'r UCTreeNode"
  assumes "URand_run P (N_ACTIONS P) (rand_i this) w = (us, r', w')"
  shows "(isLeaf_i this \<longrightarrow> selectAction P this w = Inl AssertionFailed) \<and>
     (\<not> isLeaf_i this \<and> 0 < N_ACTIONS P \<and> 0 \<le> nVisits_i this \<and>
      (\<forall>j < N_ACTIONS P. \<exists>c. fetch (vpChildren_i this) j = Ptr c \<and> 0 \<le> nVisits_i c \<and>
           - DBL_MAX \<le> uct_score (nVisits_i this) c (us ! j * EPSILON)) \<longrightarrow>
        (\<exists>sel. selectAction P this w = Inr (sel, set_rand r' this, w') \<and>
           last_greatest
             (map (\<lambda>j. slot_score (nVisits_i this) (fetch (vpChildren_i this) j) (us ! j * EPSILON))
                [0 ..< N_ACTIONS P]) sel)) \<and>
     (\<forall>pv (c :: 'r UCTreeNode) u. slot_score pv (Ptr c) (u * EPSILON) =
         totValue_i c / (nVisits_i c + 1 / 1000000)
         + sqrt (ln (pv + 1) / (nVisits_i c + 1 / 1000000)) + u * (1 / 1000000))"
proof (intro conjI impI allI)
  assume "isLeaf_i this"
  then show "selectAction P this w = Inl AssertionFailed" by (simp add: selectAction_def)
next
  fix pv :: real and c :: "'r UCTreeNode" and u :: real
  show "slot_score pv (Ptr c) (u * EPSILON) =
         totValue_i c / (nVisits_i c + 1 / 1000000)
         + sqrt (ln (pv + 1) / (nVisits_i c + 1 / 1000000)) + u * (1 / 1000000)"
    by (simp add: slot_score_def uct_score_def EPSILON_def)
next
  assume a: "\<not> isLeaf_i this \<and> 0 < N_ACTIONS P \<and> 0 \<le> nVisits_i this \<and>
      (\<forall>j < N_ACTIONS P. \<exists>c. fetch (vpChildren_i this) j = Ptr c \<and> 0 \<le> nVisits_i c \<and>
           - DBL_MAX \<le> uct_score (nVisits_i this) c (us ! j * EPSILON))"
  let ?ss = "map (\<lambda>j. slot_score (nVisits_i this) (fetch (vpChildren_i this) j) (us ! j * EPSILON))
                [0 ..< N_ACTIONS P]"
  from a have ptr: "\<forall>j < N_ACTIONS P. \<exists>c. fetch (vpChildren_i this) j = Ptr c" by blast
  have "selectAction_loop P this 0 0 (- DBL_MAX) w =
      Inr (scan ?ss 0 0 (- DBL_MAX), set_rand r' this, w')"
    using selectAction_loop_scan [OF _ _ ptr, of 0 "N_ACTIONS P" 0 "- DBL_MAX" w] assms by simp
  with a have s: "selectAction P this w = Inr (scan ?ss 0 0 (- DBL_MAX), set_rand r' this, w')"
    by (simp add: selectAction_def)
  have ne: "?ss \<noteq> []" using a by simp
  have "\<forall>s \<in> set ?ss. - DBL_MAX \<le> s"
  proof
    fix s assume "s \<in> set ?ss"
    then obtain j where j: "j < N_ACTIONS P"
      "s = slot_score (nVisits_i this) (fetch (vpChildren_i this) j) (us ! j * EPSILON)" by auto
    with a obtain c where "fetch (vpChildren_i this) j = Ptr c"
      "- DBL_MAX \<le> uct_score (nVisits_i this) c (us ! j * EPSILON)" by blast
    with j(2) show "- DBL_MAX \<le> s" by (simp add: slot_score_def)
  qed
  from scan_last_greatest [OF ne this, of 0] s
  show "\<exists>sel. selectAction P this w = Inr (sel, set_rand r' this, w') \<and> last_greatest ?ss sel"
    by blast
qed

theorem selectAction_rule_witness:
  "selectAction env0 (UCTreeNode_ctor env0 (9 / 10) ()) [] = Inl AssertionFailed \<and>
   selectAction env0 (expand env0 (UCTreeNode_ctor env0 (9 / 10) ())) []
     = Inr (1, expand env0 (UCTreeNode_ctor env0 (9 / 10) ()), [])"
proof -
  let ?leaf = "UCTreeNode_ctor env0 (9 / 10) ()"
  let ?t = "expand env0 ?leaf"
  have n: "N_ACTIONS env0 = 2" by (simp add: env0_def)
  have r: "rand_i ?t = ()" "rand_i ?leaf = ()" by simp_all
  have sr: "set_rand () ?t = ?t" by (simp add: env0_expanded set_rand_def)
  have up: "[0 ..< N_ACTIONS env0] = [0, 1]" by (simp add: n upt_rec)
  have leaf: "isLeaf_i ?leaf" by (simp add: ctor_eq)
  have pre: "\<not> isLeaf_i ?t \<and> 0 < N_ACTIONS env0 \<and> 0 \<le> nVisits_i ?t \<and>
      (\<forall>j < N_ACTIONS env0. \<exists>c. fetch (vpChildren_i ?t) j = Ptr c \<and> 0 \<le> nVisits_i c \<and>
           - DBL_MAX \<le> uct_score (nVisits_i ?t) c ([0, 0] ! j * EPSILON))"
    using DBL_MAX_pos
    by (auto simp: env0_expanded n fetch_def uct_score_def less_Suc_eq numeral_2_eq_2)
  have ss: "map (\<lambda>j. slot_score (nVisits_i ?t) (fetch (vpChildren_i ?t) j) ([0, 0] ! j * EPSILON))
                [0 ..< N_ACTIONS env0] = [0, 0]"
    by (simp add: up env0_expanded fetch_def slot_score_def uct_score_def)
  have lg: "last_greatest [0, 0] sel \<Longrightarrow> sel = 1" for sel
    by (auto simp: last_greatest_def less_Suc_eq numeral_2_eq_2)
  note T1 = selectAction_rule [of env0 ?leaf "[]" "[0, 0]" "()" "[]", unfolded r, OF env0_run]
  note T2 = selectAction_rule [of env0 ?t "[]" "[0, 0]" "()" "[]", unfolded r, OF env0_run]
  from T1 leaf have 1: "selectAction env0 ?leaf [] = Inl AssertionFailed"
    by blast
  from T2 pre
  have "\<exists>sel. selectAction env0 ?t [] = Inr (sel, set_rand () ?t, []) \<and>
           last_greatest
             (map (\<lambda>j. slot_score (nVisits_i ?t) (fetch (vpChildren_i ?t) j) ([0, 0] ! j * EPSILON))
                [0 ..< N_ACTIONS env0]) sel"
    by blast
  then have 2: "selectAction env0 ?t [] = Inr (1, ?t, [])"
    unfolding ss sr using lg by blast
  from 1 2 show ?thesis by simp
qed

subsection \<open>The recommended action\<close>

lemma bestAction_loop_scan:
  "N_ACTIONS P - k = n \<Longrightarrow> k \<le> N_ACTIONS P \<Longrightarrow>
   \<forall>j < N_ACTIONS P. \<exists>c. fetch (vpChildren_i this) j = Ptr c \<Longrightarrow>
   bestAction_loop P this k sel best w =
     (case c_rand_run P n w of
        (cs, w') \<Rightarrow>
          Inr (int (scan (map (\<lambda>i. exp_score (fetch (vpChildren_i this) (k + i))
                                 (real (cs ! i) * EPSILON / real (RAND_MAX P)))
                       [0 ..< n]) k sel best),
               this, w'))"
proof (induction n arbitrary: k sel best w)
  case 0
  then have "\<not> k < N_ACTIONS P" by simp
  then show ?case by (subst bestAction_loop.simps) simp
next
  case (Suc n)
  then have k: "k < N_ACTIONS P" by simp
  then obtain c where c: "fetch (vpChildren_i this) k = Ptr c" using Suc.prems by blast
  obtain x w1 where x: "c_rand P w = (x, w1)" by (cases "c_rand P w")
  obtain cs w2 where cs: "c_rand_run P n w1 = (cs, w2)" by (cases "c_rand_run P n w1")
  let ?e = "totValue_i c / (nVisits_i c + EPSILON) + real x * EPSILON / real (RAND_MAX P)"
  let ?rest = "map (\<lambda>i. exp_score (fetch (vpChildren_i this) (Suc k + i))
                                 (real (cs ! i) * EPSILON / real (RAND_MAX P))) [0 ..< n]"
  have rest: "bestAction_loop P this (Suc k) sel' best' w1 =
        Inr (int (scan ?rest (Suc k) sel' best'), this, w2)" for sel' best'
    using Suc.IH [of "Suc k" sel' best' w1] Suc.prems k by (simp add: cs)
  have run: "c_rand_run P (Suc n) w = (x # cs, w2)" by (simp add: x cs)
  have m: "map (\<lambda>i. exp_score (fetch (vpChildren_i this) (k + i))
                     (real ((x # cs) ! i) * EPSILON / real (RAND_MAX P))) [0 ..< Suc n]
      = ?e # ?rest"
  proof -
    have "exp_score (fetch (vpChildren_i this) k) (real x * EPSILON / real (RAND_MAX P)) = ?e"
      by (simp add: exp_score_def c)
    then show ?thesis by (simp add: map_upt_Suc del: upt_Suc)
  qed
  have "bestAction_loop P this k sel best w =
      (if ?e \<ge> best then bestAction_loop P this (Suc k) k ?e w1
       else bestAction_loop P this (Suc k) sel best w1)"
    by (subst bestAction_loop.simps) (simp add: k c x Let_def)
  also have "\<dots> = Inr (int (scan (?e # ?rest) k sel best), this, w2)"
    by (simp add: rest)
  finally show ?case by (simp only: run m prod.case)
qed

lemma to_int_range:
  assumes "0 \<le> u" and "u < 1" and "0 < N"
  shows "0 \<le> to_int (u * real N) \<and> to_int (u * real N) < int N"
proof -
  have nn: "0 \<le> u * real N" using assms by simp
  have "u * real N < real N" using assms by simp
  then have "\<lfloor>u * real N\<rfloor> < int N" by (simp add: floor_less_iff)
  with nn show ?thesis by (simp add: to_int_def)
qed

text \<open>
  Claim C7. On a leaf \<^verbatim>\<open>bestAction\<close> calls the random source once and returns its result
  times \<^verbatim>\<open>N_ACTIONS\<close>, cut to an integer: an index in \<open>[0, N_ACTIONS)\<close> when the result of the
  random source is in \<open>[0, 1)\<close>; the children and the statistics of the node are as before. On
  an internal node with all children present it scores child \<open>j\<close> with
  \<open>totValue / (nVisits + eps)\<close> plus a noise term between \<open>0\<close> and \<open>eps\<close> (the \<open>j\<close>-th result
  of \<^verbatim>\<open>rand()\<close> times \<open>eps\<close> over \<^verbatim>\<open>RAND_MAX\<close>), with no exploration term, and returns the
  index with the greatest score, every later index having a strictly smaller one.
\<close>

theorem bestAction_rule:
  fixes this :: "'r UCTreeNode"
  assumes "URand_call P (rand_i this) w = (u, r1, w1)"
    and "c_rand_run P (N_ACTIONS P) w = (cs, w2)"
  shows "(isLeaf_i this \<longrightarrow>
        bestAction P this w = Inr (to_int (u * real (N_ACTIONS P)), set_rand r1 this, w1) \<and>
        vpChildren_i (set_rand r1 this) = vpChildren_i this \<and>
        nVisits_i (set_rand r1 this) = nVisits_i this \<and>
        totValue_i (set_rand r1 this) = totValue_i this \<and>
        (0 \<le> u \<and> u < 1 \<and> 0 < N_ACTIONS P \<longrightarrow>
           0 \<le> to_int (u * real (N_ACTIONS P)) \<and> to_int (u * real (N_ACTIONS P)) < int (N_ACTIONS P))) \<and>
     (\<not> isLeaf_i this \<and> 0 < N_ACTIONS P \<and>
      (\<forall>j < N_ACTIONS P. \<exists>c. fetch (vpChildren_i this) j = Ptr c \<and> 0 \<le> nVisits_i c \<and>
           - DBL_MAX \<le> exp_score (Ptr c) (real (cs ! j) * EPSILON / real (RAND_MAX P))) \<longrightarrow>
        (\<exists>sel. bestAction P this w = Inr (int sel, this, w2) \<and>
           last_greatest
             (map (\<lambda>j. exp_score (fetch (vpChildren_i this) j)
                        (real (cs ! j) * EPSILON / real (RAND_MAX P)))
                [0 ..< N_ACTIONS P]) sel)) \<and>
     (\<forall>(c :: 'r UCTreeNode) x. exp_score (Ptr c) x = totValue_i c / (nVisits_i c + 1 / 1000000) + x) \<and>
     (\<forall>j. 0 < RAND_MAX P \<and> cs ! j \<le> RAND_MAX P \<longrightarrow>
         0 \<le> real (cs ! j) * EPSILON / real (RAND_MAX P) \<and>
         real (cs ! j) * EPSILON / real (RAND_MAX P) \<le> 1 / 1000000)"
proof (intro conjI impI allI)
  assume "isLeaf_i this"
  then show "bestAction P this w = Inr (to_int (u * real (N_ACTIONS P)), set_rand r1 this, w1)"
    by (simp add: bestAction_def assms(1))
next
  show "vpChildren_i (set_rand r1 this) = vpChildren_i this"
    "nVisits_i (set_rand r1 this) = nVisits_i this"
    "totValue_i (set_rand r1 this) = totValue_i this"
    by (simp_all add: set_rand_def)
next
  assume "0 \<le> u \<and> u < 1 \<and> 0 < N_ACTIONS P"
  then show "0 \<le> to_int (u * real (N_ACTIONS P))" "to_int (u * real (N_ACTIONS P)) < int (N_ACTIONS P)"
    using to_int_range [of u "N_ACTIONS P"] by simp_all
next
  fix c :: "'r UCTreeNode" and x :: real
  show "exp_score (Ptr c) x = totValue_i c / (nVisits_i c + 1 / 1000000) + x"
    by (simp add: exp_score_def EPSILON_def)
next
  fix j assume a: "0 < RAND_MAX P \<and> cs ! j \<le> RAND_MAX P"
  then have "real (cs ! j) / real (RAND_MAX P) \<le> 1" by simp
  then have "real (cs ! j) / real (RAND_MAX P) * EPSILON \<le> 1 * EPSILON"
    by (intro mult_right_mono) (simp_all add: EPSILON_def)
  then show "real (cs ! j) * EPSILON / real (RAND_MAX P) \<le> 1 / 1000000"
    by (simp add: EPSILON_def)
  show "0 \<le> real (cs ! j) * EPSILON / real (RAND_MAX P)" by (simp add: EPSILON_def)
next
  assume a: "\<not> isLeaf_i this \<and> 0 < N_ACTIONS P \<and>
      (\<forall>j < N_ACTIONS P. \<exists>c. fetch (vpChildren_i this) j = Ptr c \<and> 0 \<le> nVisits_i c \<and>
           - DBL_MAX \<le> exp_score (Ptr c) (real (cs ! j) * EPSILON / real (RAND_MAX P)))"
  let ?ss = "map (\<lambda>j. exp_score (fetch (vpChildren_i this) j)
                        (real (cs ! j) * EPSILON / real (RAND_MAX P))) [0 ..< N_ACTIONS P]"
  from a have ptr: "\<forall>j < N_ACTIONS P. \<exists>c. fetch (vpChildren_i this) j = Ptr c" by blast
  have "bestAction_loop P this 0 0 (- DBL_MAX) w = Inr (int (scan ?ss 0 0 (- DBL_MAX)), this, w2)"
    using bestAction_loop_scan [OF _ _ ptr, of 0 "N_ACTIONS P" 0 "- DBL_MAX" w] assms(2) by simp
  with a have s: "bestAction P this w = Inr (int (scan ?ss 0 0 (- DBL_MAX)), this, w2)"
    by (simp add: bestAction_def)
  have ne: "?ss \<noteq> []" using a by simp
  have "\<forall>s \<in> set ?ss. - DBL_MAX \<le> s"
  proof
    fix s assume "s \<in> set ?ss"
    then obtain j where j: "j < N_ACTIONS P"
      "s = exp_score (fetch (vpChildren_i this) j) (real (cs ! j) * EPSILON / real (RAND_MAX P))"
      by auto
    with a obtain c where "fetch (vpChildren_i this) j = Ptr c"
      "- DBL_MAX \<le> exp_score (Ptr c) (real (cs ! j) * EPSILON / real (RAND_MAX P))" by blast
    with j(2) show "- DBL_MAX \<le> s" by simp
  qed
  from scan_last_greatest [OF ne this, of 0] s
  show "\<exists>sel. bestAction P this w = Inr (int sel, this, w2) \<and> last_greatest ?ss sel"
    by blast
qed

theorem bestAction_rule_witness:
  "bestAction env0 (UCTreeNode_ctor env0 (9 / 10) ()) [5, 3]
     = Inr (0, UCTreeNode_ctor env0 (9 / 10) (), [5, 3]) \<and>
   bestAction env0 (expand env0 (UCTreeNode_ctor env0 (9 / 10) ())) [5, 3]
     = Inr (0, expand env0 (UCTreeNode_ctor env0 (9 / 10) ()), [])"
proof -
  let ?leaf = "UCTreeNode_ctor env0 (9 / 10) ()"
  let ?t = "expand env0 ?leaf"
  have n: "N_ACTIONS env0 = 2" and rm: "RAND_MAX env0 = 32767" by (simp_all add: env0_def)
  have r: "rand_i ?t = ()" "rand_i ?leaf = ()" by simp_all
  have u: "URand_call env0 () [5, 3] = (0, (), [5, 3])" by (simp add: env0_def)
  have sr: "set_rand () ?leaf = ?leaf" by (simp add: ctor_eq set_rand_def)
  have up: "[0 ..< N_ACTIONS env0] = [0, 1]" by (simp add: n upt_rec)
  have leaf: "isLeaf_i ?leaf" by (simp add: ctor_eq)
  have ss: "map (\<lambda>j. exp_score (fetch (vpChildren_i ?t) j) (real ([5, 3] ! j) * EPSILON / real (RAND_MAX env0)))
                [0 ..< N_ACTIONS env0] = [5 / 32767000000, 3 / 32767000000]"
    by (simp add: up env0_expanded fetch_def exp_score_def rm EPSILON_def)
  have pre: "\<not> isLeaf_i ?t \<and> 0 < N_ACTIONS env0 \<and>
      (\<forall>j < N_ACTIONS env0. \<exists>c. fetch (vpChildren_i ?t) j = Ptr c \<and> 0 \<le> nVisits_i c \<and>
           - DBL_MAX \<le> exp_score (Ptr c) (real ([5, 3] ! j) * EPSILON / real (RAND_MAX env0)))"
    using DBL_MAX_pos
    by (auto simp: env0_expanded n fetch_def exp_score_def less_Suc_eq numeral_2_eq_2 rm EPSILON_def)
  have lg: "last_greatest [5 / 32767000000, 3 / 32767000000] sel \<Longrightarrow> sel = 0" for sel
    by (auto simp: last_greatest_def less_Suc_eq numeral_2_eq_2)
  note T1 = bestAction_rule [of env0 ?leaf "[5, 3]" 0 "()" "[5, 3]" "[5, 3]" "[]", unfolded r, OF u env0_c_rand_run]
  note T2 = bestAction_rule [of env0 ?t "[5, 3]" 0 "()" "[5, 3]" "[5, 3]" "[]", unfolded r, OF u env0_c_rand_run]
  from T1 leaf have "bestAction env0 ?leaf [5, 3] = Inr (to_int (0 * real (N_ACTIONS env0)), set_rand () ?leaf, [5, 3])"
    by blast
  then have 1: "bestAction env0 ?leaf [5, 3] = Inr (0, ?leaf, [5, 3])"
    by (simp add: sr to_int_def)
  from T2 pre
  have "\<exists>sel. bestAction env0 ?t [5, 3] = Inr (int sel, ?t, []) \<and>
           last_greatest
             (map (\<lambda>j. exp_score (fetch (vpChildren_i ?t) j) (real ([5, 3] ! j) * EPSILON / real (RAND_MAX env0)))
                [0 ..< N_ACTIONS env0]) sel"
    by blast
  then have 2: "bestAction env0 ?t [5, 3] = Inr (0, ?t, [])"
    unfolding ss using lg by fastforce
  from 1 2 show ?thesis by simp
qed

text \<open>
  Claim C9. The leaf branch of \<^verbatim>\<open>bestAction\<close> and \<^verbatim>\<open>selectAction\<close> draw from the
  random source of the node, but the loop of \<^verbatim>\<open>bestAction\<close> calls the C library's
  \<^verbatim>\<open>rand()\<close>. On one and the same tree (here the tree after one call of \<^verbatim>\<open>iterate\<close>
  with rewards \<open>0\<close>), with the same random source, two states of \<^verbatim>\<open>rand()\<close> give two
  different actions.
\<close>

theorem bestAction_reads_ambient_rand:
  "iterate env0 (UCTreeNode_ctor env0 (9 / 10) ()) () []
     = Inr (UCTreeNode [Ptr (UCTreeNode [Null, Null] True 0 0 (9 / 10) ()),
                        Ptr (UCTreeNode [Null, Null] True 1 0 (9 / 10) ())] False 1 0 (9 / 10) (), []) \<and>
   bestAction env0
     (UCTreeNode [Ptr (UCTreeNode [Null, Null] True 0 0 (9 / 10) ()),
                  Ptr (UCTreeNode [Null, Null] True 1 0 (9 / 10) ())] False 1 0 (9 / 10) ()) [5, 3]
     = Inr (0, UCTreeNode [Ptr (UCTreeNode [Null, Null] True 0 0 (9 / 10) ()),
                  Ptr (UCTreeNode [Null, Null] True 1 0 (9 / 10) ())] False 1 0 (9 / 10) (), []) \<and>
   bestAction env0
     (UCTreeNode [Ptr (UCTreeNode [Null, Null] True 0 0 (9 / 10) ()),
                  Ptr (UCTreeNode [Null, Null] True 1 0 (9 / 10) ())] False 1 0 (9 / 10) ()) [3, 5]
     = Inr (1, UCTreeNode [Ptr (UCTreeNode [Null, Null] True 0 0 (9 / 10) ()),
                  Ptr (UCTreeNode [Null, Null] True 1 0 (9 / 10) ())] False 1 0 (9 / 10) (), [])"
  unfolding env0_iterate
  by (simp add: bestAction_def bestAction_loop.simps fetch_def env0_def EPSILON_def DBL_MAX_def)

subsection \<open>Mean values\<close>

text \<open>
  Claim C10, as the code has it. \<^verbatim>\<open>qValue\<close> asserts that the action is in
  \<open>[0, N_ACTIONS)\<close> and nothing else; \<^verbatim>\<open>vValue\<close> asserts nothing. With the action in range
  and the child present \<^verbatim>\<open>qValue\<close> returns what \<^verbatim>\<open>vValue\<close> returns on the child; on a
  visited node that is the total over the visit count; on a node that was never visited it is
  the quotient of the total by zero, NaN when the total is zero, and no failure.
\<close>

theorem qValue_vValue_rule:
  "(action < 0 \<or> int (N_ACTIONS P) \<le> action \<longrightarrow> qValue P this action = Inl AssertionFailed) \<and>
   (0 \<le> action \<and> action < int (N_ACTIONS P) \<and> fetch (vpChildren_i this) (nat action) = Ptr c \<longrightarrow>
      qValue P this action = Inr (vValue c) \<and>
      (nVisits_i c \<noteq> 0 \<longrightarrow> qValue P this action = Inr (Finite (totValue_i c / nVisits_i c))) \<and>
      (nVisits_i c = 0 \<and> totValue_i c = 0 \<longrightarrow> qValue P this action = Inr NaN)) \<and>
   (nVisits_i this \<noteq> 0 \<longrightarrow> vValue this = Finite (totValue_i this / nVisits_i this)) \<and>
   (nVisits_i this = 0 \<longrightarrow>
      vValue this = (if totValue_i this = 0 then NaN else if 0 < totValue_i this then PosInf else NegInf))"
  by (auto simp: qValue_def vValue_def double_div_def)

theorem qValue_vValue_rule_witness:
  "qValue env0 (expand env0 (UCTreeNode_ctor env0 (9 / 10) ())) (- 1) = Inl AssertionFailed \<and>
   qValue env0 (expand env0 (UCTreeNode_ctor env0 (9 / 10) ())) 2 = Inl AssertionFailed \<and>
   qValue env0 (UCTreeNode [Ptr (UCTreeNode [Null, Null] True 4 6 (9 / 10) ()), Ptr (UCTreeNode_default env0)]
      False 4 6 (9 / 10) ()) 0 = Inr (Finite (3 / 2)) \<and>
   vValue (UCTreeNode [Null, Null] True 4 6 (9 / 10) ()) = Finite (3 / 2) \<and>
   vValue (UCTreeNode_ctor env0 (9 / 10) ()) = NaN"
proof -
  let ?t = "expand env0 (UCTreeNode_ctor env0 (9 / 10) ())"
  let ?c = "UCTreeNode [Null, Null] True 4 6 (9 / 10) ()"
  let ?u = "UCTreeNode [Ptr ?c, Ptr (UCTreeNode_default env0)] False 4 6 (9 / 10) ()"
  have n: "int (N_ACTIONS env0) = 2" by (simp add: env0_def)
  have f: "fetch (vpChildren_i ?u) (nat 0) = Ptr ?c" by (simp add: fetch_def)
  have c: "nVisits_i ?c \<noteq> 0" "totValue_i ?c / nVisits_i ?c = 3 / 2"
    "nVisits_i ?c = 4" "totValue_i ?c = 6" by simp_all
  have z: "nVisits_i (UCTreeNode_ctor env0 (9 / 10) ()) = 0" "totValue_i (UCTreeNode_ctor env0 (9 / 10) ()) = 0"
    by (simp_all add: ctor_eq)
  have r: "(- 1 :: int) < 0" "int (N_ACTIONS env0) \<le> 2" "(0::int) \<le> 0" "0 < int (N_ACTIONS env0)"
    by (simp_all add: n)
  from qValue_vValue_rule [where action = "- 1" and P = env0 and this = ?t] r(1)
  have 1: "qValue env0 ?t (- 1) = Inl AssertionFailed" by blast
  from qValue_vValue_rule [where action = 2 and P = env0 and this = ?t] r(2)
  have 2: "qValue env0 ?t 2 = Inl AssertionFailed" by blast
  from qValue_vValue_rule [where action = 0 and P = env0 and this = ?u and c = ?c] r(3,4) f c(1)
  have "qValue env0 ?u 0 = Inr (Finite (totValue_i ?c / nVisits_i ?c))" by blast
  then have 3: "qValue env0 ?u 0 = Inr (Finite (3 / 2))" by (simp only: c(2))
  from qValue_vValue_rule [where action = 0 and P = env0 and this = ?c and c = ?c] c(1)
  have "vValue ?c = Finite (totValue_i ?c / nVisits_i ?c)" by blast
  then have 4: "vValue ?c = Finite (3 / 2)" by (simp only: c(2))
  from qValue_vValue_rule [where action = 0 and P = env0
      and this = "UCTreeNode_ctor env0 (9 / 10) ()" and c = ?c] z
  have 5: "vValue (UCTreeNode_ctor env0 (9 / 10) ()) = NaN" by simp
  from 1 2 3 4 5 show ?thesis by (intro conjI)
qed

text \<open>
  The claim as stated fails: on a newly constructed node \<^verbatim>\<open>vValue\<close> returns NaN, and so
  does \<^verbatim>\<open>qValue(0)\<close> after one call of \<^verbatim>\<open>iterate\<close>, which visited child 1 only.
\<close>

theorem unvisited_value_counterexample:
  "vValue (UCTreeNode_ctor env0 (9 / 10) ()) = NaN \<and>
   iterate env0 (UCTreeNode_ctor env0 (9 / 10) ()) () []
     = Inr (UCTreeNode [Ptr (UCTreeNode [Null, Null] True 0 0 (9 / 10) ()),
                        Ptr (UCTreeNode [Null, Null] True 1 0 (9 / 10) ())] False 1 0 (9 / 10) (), []) \<and>
   qValue env0
     (UCTreeNode [Ptr (UCTreeNode [Null, Null] True 0 0 (9 / 10) ()),
                  Ptr (UCTreeNode [Null, Null] True 1 0 (9 / 10) ())] False 1 0 (9 / 10) ()) 0 = Inr NaN \<and>
   qValue env0
     (UCTreeNode [Ptr (UCTreeNode [Null, Null] True 0 0 (9 / 10) ()),
                  Ptr (UCTreeNode [Null, Null] True 1 0 (9 / 10) ())] False 1 0 (9 / 10) ()) 0
     \<noteq> Inl AssertionFailed"
proof -
  have n: "N_ACTIONS env0 = 2" by (simp add: env0_def)
  show ?thesis
    unfolding env0_iterate
    by (simp add: ctor_eq vValue_def qValue_def double_div_def fetch_def n)
qed

subsection \<open>Copies\<close>

text \<open>
  Claim C6. The constructor, \<^verbatim>\<open>expand\<close> and \<^verbatim>\<open>iterate\<close> keep the structural
  invariant (the lemmas \<open>invariant_ctor\<close>, \<open>expand_props\<close> and \<open>iterate_effect\<close> above).
  The copy constructor does not: for a leaf it returns before it has written the array of the
  new object, so the copy of a newly constructed node is a leaf whose slots are indeterminate
  and not null.
\<close>

theorem copy_of_leaf_breaks_invariant:
  "invariant 2 (UCTreeNode_ctor env0 (9 / 10) ()) \<and>
   UCTreeNode_copy env0 (UCTreeNode_ctor env0 (9 / 10) ())
     = Inr (UCTreeNode [Indeterminate, Indeterminate] True 0 0 (9 / 10) ()) \<and>
   \<not> invariant 2 (UCTreeNode [Indeterminate, Indeterminate] True 0 0 (9 / 10) ())"
proof -
  have n: "N_ACTIONS env0 = Suc (Suc 0)" by (simp add: env0_def)
  show ?thesis by (simp add: ctor_eq n)
qed

end
